theory Spec2Isabelle
  imports Main
begin


section \<open>The event emitter behind a repository\<close>

text \<open>
  \<^verbatim>\<open>state.ts\<close> keeps the listeners of a repository in an \<^verbatim>\<open>EventEmitter\<close> of the
  \<^verbatim>\<open>events\<close> module of Node.js, under the single event name \<^verbatim>\<open>"change"\<close>. The module
  is a dependency and not part of the repository; the three operations that \<^verbatim>\<open>state.ts\<close>
  calls are written out here as the documentation of the module describes them. The
  listeners of an event form an array. \<^verbatim>\<open>on\<close> adds the listener at the end of the array
  and makes no check whether it has been added already, so a function added twice is
  called twice. \<^verbatim>\<open>off\<close> (\<^verbatim>\<open>removeListener\<close>) removes at most one instance of the listener
  from the array, the most recently added one, and does nothing when there is none.
  \<^verbatim>\<open>emit\<close> calls the listeners synchronously, in the order in which they were
  registered, each with the arguments supplied; it works on a copy of the array taken
  when it starts, so a listener added or removed while an emission is running changes
  later emissions only.

  A listener is a JavaScript function, compared by reference: the type \<open>'l\<close> stands
  for these references. \<open>emit\<close> gives the calls an emission is going to make, in order:
  the copy of the array, each listener with the arguments. Making these calls, that is
  running the bodies of the listeners, is the work of \<open>exec\<close> below.
\<close>

definition on :: "'l \<Rightarrow> 'l list \<Rightarrow> 'l list" where
  "on listener listeners = listeners @ [listener]"

definition off :: "'l \<Rightarrow> 'l list \<Rightarrow> 'l list" where
  "off listener listeners = rev (remove1 listener (rev listeners))"

definition emit :: "'l list \<Rightarrow> 'a \<Rightarrow> ('l \<times> 'a) list" where
  "emit listeners args = map (\<lambda>listener. (listener, args)) listeners"


section \<open>Repository\<close>

text \<open>
  \<^verbatim>\<open>createRepository\<close> returns an object with the field \<^verbatim>\<open>state\<close> and the two closures
  \<^verbatim>\<open>setState\<close> and \<^verbatim>\<open>onChange\<close> over one event emitter. The closures mutate the object
  and the emitter; the model passes the repository in and returns it updated.
  \<open>setState\<close> is the body of \<^verbatim>\<open>setState\<close> up to the point where \<^verbatim>\<open>emit\<close> has copied the
  listener array: it returns the repository with the new state and the calls the emission
  is going to make, each a triple (listener, new state, previous state). \<^verbatim>\<open>onChange\<close>
  returns the unsubscribe closure first, as a function on repositories.
\<close>

record ('v, 'l) Repository =
  state :: 'v
  eventEmitter :: "'l list"

type_synonym ('v, 'l) notification = "'l \<times> 'v \<times> 'v"

definition createRepository :: "'v \<Rightarrow> ('v, 'l) Repository" where
  "createRepository initialState = \<lparr>state = initialState, eventEmitter = []\<rparr>"

definition setState ::
  "'v \<Rightarrow> ('v, 'l) Repository \<Rightarrow> ('v, 'l) Repository \<times> ('v, 'l) notification list" where
  "setState nextState repository =
     (let prevState = state repository;
          repository' = repository\<lparr>state := nextState\<rparr>
      in (repository', emit (eventEmitter repository') (nextState, prevState)))"

definition onChange ::
  "'l \<Rightarrow> ('v, 'l) Repository \<Rightarrow>
     (('v, 'l) Repository \<Rightarrow> ('v, 'l) Repository) \<times> ('v, 'l) Repository" where
  "onChange listener repository =
     (\<lambda>r. r\<lparr>eventEmitter := off listener (eventEmitter r)\<rparr>,
      repository\<lparr>eventEmitter := on listener (eventEmitter repository)\<rparr>)"


section \<open>Listeners at work\<close>

text \<open>
  The listeners run inside \<^verbatim>\<open>setState\<close>, one after the other, and a listener may use the
  repository it listens to. What matters of the body of a listener is which of these it
  does, in which order: it throws; it calls \<^verbatim>\<open>setState\<close>; it calls \<^verbatim>\<open>onChange\<close> with some
  listener; it calls an unsubscribe function that \<^verbatim>\<open>onChange\<close> returned for some listener.
  A body is a function from the arguments of the notification to the list of these
  commands, and \<open>body\<close> below gives the body of every listener function.

  \<open>exec\<close> carries out the calls that are still to be made, first to last. A call of a
  listener is recorded with its arguments and with \<^verbatim>\<open>repository.state\<close> as it is at that
  moment, and the commands of the body are put in front of the remaining work. A
  \<^verbatim>\<open>setState\<close> inside a body assigns the state and puts the calls of its own emission in
  front, so the nested emission is finished before the interrupted one goes on. No code
  of \<^verbatim>\<open>state.ts\<close> and no body catches anything, so a throw ends all the work: the result
  holds the value thrown and the repository as it is then. Since a body may call
  \<^verbatim>\<open>setState\<close> again with every notification, the work need not end; the first argument
  bounds the number of steps, and the result is \<open>None\<close> when they do not suffice.
  The field \<^verbatim>\<open>state\<close> is written by \<^verbatim>\<open>setState\<close> only; a body that assigns to it directly is
  not considered.
\<close>

datatype ('v, 'l, 'e) command = Throw 'e | SetState 'v | OnChange 'l | Unsubscribe 'l

datatype ('v, 'l, 'e) work = Call 'l 'v 'v | Do "('v, 'l, 'e) command"

type_synonym ('v, 'l, 'e) bodies = "'l \<Rightarrow> 'v \<Rightarrow> 'v \<Rightarrow> ('v, 'l, 'e) command list"

type_synonym ('v, 'l) heard = "('l \<times> 'v \<times> 'v \<times> 'v) list"

definition calling :: "('v, 'l) notification \<Rightarrow> ('v, 'l, 'e) work" where
  "calling c = (case c of (listener, newState, oldState) \<Rightarrow> Call listener newState oldState)"

fun exec ::
  "nat \<Rightarrow> ('v, 'l, 'e) bodies \<Rightarrow> ('v, 'l, 'e) work list \<Rightarrow> ('v, 'l) Repository \<times> ('v, 'l) heard \<Rightarrow>
     ('e option \<times> ('v, 'l) Repository \<times> ('v, 'l) heard) option" where
  "exec n body [] s = Some (None, s)"
| "exec 0 body (w # ws) s = None"
| "exec (Suc n) body (Call listener newState oldState # ws) (r, log) =
     exec n body (map Do (body listener newState oldState) @ ws)
       (r, log @ [(listener, newState, oldState, state r)])"
| "exec (Suc n) body (Do (Throw error) # ws) s = Some (Some error, s)"
| "exec (Suc n) body (Do (SetState nextState) # ws) (r, log) =
     (let (r', calls) = setState nextState r
      in exec n body (map calling calls @ ws) (r', log))"
| "exec (Suc n) body (Do (OnChange listener) # ws) (r, log) =
     exec n body ws (snd (onChange listener r), log)"
| "exec (Suc n) body (Do (Unsubscribe listener) # ws) (r, log) =
     exec n body ws (fst (onChange listener r) r, log)"

text \<open>
  A call \<^verbatim>\<open>repository.setState(nextState)\<close> from outside, and a sequence of such calls
  made one after the other by one caller, which ends at the first call that raises.
\<close>

definition call_setState ::
  "nat \<Rightarrow> ('v, 'l, 'e) bodies \<Rightarrow> 'v \<Rightarrow> ('v, 'l) Repository \<times> ('v, 'l) heard \<Rightarrow>
     ('e option \<times> ('v, 'l) Repository \<times> ('v, 'l) heard) option" where
  "call_setState n body nextState s = exec n body [Do (SetState nextState)] s"

fun call_setStates ::
  "nat \<Rightarrow> ('v, 'l, 'e) bodies \<Rightarrow> 'v list \<Rightarrow> ('v, 'l) Repository \<times> ('v, 'l) heard \<Rightarrow>
     ('e option \<times> ('v, 'l) Repository \<times> ('v, 'l) heard) option" where
  "call_setStates n body [] s = Some (None, s)"
| "call_setStates n body (v # vs) s =
     (case call_setState n body v s of
        None \<Rightarrow> None
      | Some (Some error, s') \<Rightarrow> Some (Some error, s')
      | Some (None, s') \<Rightarrow> call_setStates n body vs s')"

text \<open>
  What one listener function was called with, in the order of the calls: new state,
  previous state, and the state it found in the repository.
\<close>

definition observed :: "'l \<Rightarrow> ('v, 'l) heard \<Rightarrow> ('v \<times> 'v \<times> 'v) list" where
  "observed listener log = map snd (filter (\<lambda>c. fst c = listener) log)"

text \<open>
  Bodies that neither throw nor call \<^verbatim>\<open>setState\<close> are \<open>quiet\<close>; they may still subscribe
  and unsubscribe listeners, which is what \<open>perform\<close> does to the repository. \<open>cost\<close>
  counts the steps that the calls of one emission take with such bodies. \<open>untouched\<close> says
  that no body subscribes the listener or calls an unsubscribe function of it.
\<close>

fun benign :: "('v, 'l, 'e) command \<Rightarrow> bool" where
  "benign (Throw error) = False"
| "benign (SetState nextState) = False"
| "benign (OnChange listener) = True"
| "benign (Unsubscribe listener) = True"

definition quiet :: "('v, 'l, 'e) bodies \<Rightarrow> bool" where
  "quiet body \<longleftrightarrow> (\<forall>listener newState oldState. list_all benign (body listener newState oldState))"

fun perform :: "('v, 'l, 'e) command \<Rightarrow> ('v, 'l) Repository \<Rightarrow> ('v, 'l) Repository" where
  "perform (OnChange listener) r = snd (onChange listener r)"
| "perform (Unsubscribe listener) r = fst (onChange listener r) r"
| "perform (Throw error) r = r"
| "perform (SetState nextState) r = r"

definition commands :: "('v, 'l, 'e) bodies \<Rightarrow> ('v, 'l) notification list \<Rightarrow> ('v, 'l, 'e) command list" where
  "commands body calls = concat (map (\<lambda>(listener, newState, oldState). body listener newState oldState) calls)"

definition cost :: "('v, 'l, 'e) bodies \<Rightarrow> ('v, 'l) notification list \<Rightarrow> nat" where
  "cost body calls = length calls + length (commands body calls)"

definition untouched :: "('v, 'l, 'e) bodies \<Rightarrow> 'l \<Rightarrow> bool" where
  "untouched body listener \<longleftrightarrow>
     (\<forall>l newState oldState.
        OnChange listener \<notin> set (body l newState oldState)
        \<and> Unsubscribe listener \<notin> set (body l newState oldState))"


section \<open>Asynchronous actions\<close>

text \<open>
  An action is a function returning a promise. Called with its arguments, it either
  throws at once or returns a promise, and the promise later settles as fulfilled or
  rejected. When the promise settles is not in the hands of the action; with what it
  settles is: the action may read its surroundings \<open>'x\<close> (for the actions of a store,
  \<^verbatim>\<open>repository.state\<close>) when it is called and again when it completes, as \<^verbatim>\<open>increment\<close>
  of \<^verbatim>\<open>index.tsx\<close> does after its delay. So a promise is the function from the
  surroundings at completion to the outcome, and an action is a function from arguments
  and surroundings at the call to a throw or a promise.

  The bindings of \<^verbatim>\<open>state.ts\<close> are \<^verbatim>\<open>async\<close> functions with one \<^verbatim>\<open>await\<close>, on the call
  of the action they wrap. On the single thread of JavaScript such a function runs in
  two parts, each without interruption: the first from the invocation to the \<^verbatim>\<open>await\<close>,
  the second when the awaited promise has settled. Each part is one function of the
  model; between the two parts anything else may run. The first part ends with the
  outcome of the binding's own promise, when that is settled already, or with the promise
  it now waits for.
\<close>

datatype ('e, 'r) outcome = Fulfilled 'r | Rejected 'e

datatype ('e, 'r, 'x) called = Throws 'e | Returns "'x \<Rightarrow> ('e, 'r) outcome"

type_synonym ('a, 'e, 'r, 'x) Action = "'a \<Rightarrow> 'x \<Rightarrow> ('e, 'r, 'x) called"


subsection \<open>Store binding\<close>

text \<open>
  \<^verbatim>\<open>storifyAction(repository, action)\<close> returns a closure over the repository and the
  action. The repository is the object that the model passes as state, so the closure is
  given by its action, and \<^verbatim>\<open>createStore\<close> pairs the repository with the closures. The
  call \<^verbatim>\<open>repository.setState(result)\<close> of the second part is inside the \<^verbatim>\<open>try\<close>, whose
  \<^verbatim>\<open>catch\<close> throws the error again: what a listener throws there rejects the promise of
  the bound call.
\<close>

record 'act storified =
  storified_action :: 'act

definition storifyAction :: "'act \<Rightarrow> 'act storified" where
  "storifyAction action = \<lparr>storified_action = action\<rparr>"

definition storifyAction_call ::
  "('a, 'e, 'v, 'v) Action storified \<Rightarrow> 'a \<Rightarrow> ('v, 'l) Repository \<Rightarrow>
     ('e, unit) outcome + ('v \<Rightarrow> ('e, 'v) outcome)" where
  "storifyAction_call impl args repository =
     (case storified_action impl args (state repository) of
        Returns promise \<Rightarrow> Inr promise
      | Throws error \<Rightarrow> Inl (Rejected error))"

definition storifyAction_settle ::
  "nat \<Rightarrow> ('v, 'l, 'e) bodies \<Rightarrow> ('v \<Rightarrow> ('e, 'v) outcome) \<Rightarrow>
     ('v, 'l) Repository \<times> ('v, 'l) heard \<Rightarrow>
     (('e, unit) outcome \<times> ('v, 'l) Repository \<times> ('v, 'l) heard) option" where
  "storifyAction_settle n body promise s =
     (case promise (state (fst s)) of
        Fulfilled result \<Rightarrow>
          (case call_setState n body result s of
             None \<Rightarrow> None
           | Some (None, s') \<Rightarrow> Some (Fulfilled (), s')
           | Some (Some error, s') \<Rightarrow> Some (Rejected error, s'))
      | Rejected error \<Rightarrow> Some (Rejected error, s))"


section \<open>Objects\<close>

text \<open>
  A JavaScript object with string keys is the list of its own properties, each key
  once. Only lookups and key sets are used below, so the order in which JavaScript
  enumerates keys plays no role. A missing property reads as \<^verbatim>\<open>undefined\<close>, here \<open>None\<close>.

  The counters are JavaScript numbers that start at 0 and change by 1: integers, which
  the number type represents exactly below \<open>2^53\<close>, a count of simultaneous calls
  that no run reaches; they are integers of the model. \<^verbatim>\<open>undefined\<close> becomes \<^verbatim>\<open>NaN\<close>
  under \<^verbatim>\<open>++\<close> and \<^verbatim>\<open>--\<close>, and \<^verbatim>\<open>NaN\<close> stays \<^verbatim>\<open>NaN\<close>.
\<close>

datatype number = Num int | NaN

type_synonym 'v object = "(string \<times> 'v) list"

definition keys :: "'v object \<Rightarrow> string list" where
  "keys obj = map fst obj"

definition getProp :: "'v object \<Rightarrow> string \<Rightarrow> 'v option" where
  "getProp obj key = map_of obj key"

fun setProp :: "string \<Rightarrow> 'v \<Rightarrow> 'v object \<Rightarrow> 'v object" where
  "setProp key v [] = [(key, v)]"
| "setProp key v ((k, u) # ps) = (if k = key then (k, v) # ps else (k, u) # setProp key v ps)"

definition fromEntries :: "(string \<times> 'v) list \<Rightarrow> 'v object" where
  "fromEntries entries = fold (\<lambda>(key, v) obj. setProp key v obj) entries []"

definition toNumber :: "number option \<Rightarrow> number" where
  "toNumber v = (case v of None \<Rightarrow> NaN | Some n \<Rightarrow> n)"

fun add :: "number \<Rightarrow> int \<Rightarrow> number" where
  "add (Num n) d = Num (n + d)"
| "add NaN d = NaN"

definition increment :: "string \<Rightarrow> number object \<Rightarrow> number object" where
  "increment name obj = setProp name (add (toNumber (getProp obj name)) 1) obj"

definition decrement :: "string \<Rightarrow> number object \<Rightarrow> number object" where
  "decrement name obj = setProp name (add (toNumber (getProp obj name)) (- 1)) obj"


section \<open>Store\<close>

text \<open>
  \<^verbatim>\<open>storifyActions\<close> binds every action of the object it is given, and \<^verbatim>\<open>createStore\<close>
  returns the repository with the bound actions.
\<close>

definition storifyActions :: "'act object \<Rightarrow> 'act storified object" where
  "storifyActions actions =
     (let entries = map (\<lambda>(key, v). (key, storifyAction v)) actions
      in fromEntries entries)"

record ('v, 'l, 'act) Store =
  store_repository :: "('v, 'l) Repository"
  store_actions :: "'act storified object"

definition createStore :: "('v, 'l) Repository \<Rightarrow> 'act object \<Rightarrow> ('v, 'l, 'act) Store" where
  "createStore repository actions =
     \<lparr>store_repository = repository, store_actions = storifyActions actions\<rparr>"


section \<open>Tracking wrapper\<close>

text \<open>
  \<^verbatim>\<open>wrapAction\<close> returns the closures \<^verbatim>\<open>impl\<close> and \<^verbatim>\<open>unsubscribe\<close> over the variable
  \<^verbatim>\<open>isSubscribed\<close>, the action and the callback \<^verbatim>\<open>onChange\<close>. The record holds what the
  closures share. The callback acts on a state \<open>'w\<close> of its owner and may throw: it
  returns the value thrown, if any, with the state it leaves.

  In \<^verbatim>\<open>impl\<close> the pending event is emitted before the \<^verbatim>\<open>try\<close>, so a callback that throws
  there rejects the call before the action is invoked. The call of the action, the
  \<^verbatim>\<open>await\<close> and the resolved event are inside the \<^verbatim>\<open>try\<close>: whatever is thrown there,
  by the action, by its promise or by the callback on the resolved event, reaches the
  \<^verbatim>\<open>catch\<close>, which emits the rejected event and throws the error again; a callback that
  throws on the rejected event replaces the error.
\<close>

datatype PromiseState = pending | resolved | rejected

record ('act, 'e, 'w) wrapped =
  isSubscribed :: bool
  wrapped_action :: 'act
  wrapped_onChange :: "PromiseState \<Rightarrow> 'w \<Rightarrow> 'e option \<times> 'w"

definition wrapAction ::
  "'act \<Rightarrow> (PromiseState \<Rightarrow> 'w \<Rightarrow> 'e option \<times> 'w) \<Rightarrow> ('act, 'e, 'w) wrapped" where
  "wrapAction action onChange' =
     \<lparr>isSubscribed = True, wrapped_action = action, wrapped_onChange = onChange'\<rparr>"


definition emitChange :: "('act, 'e, 'w) wrapped \<Rightarrow> PromiseState \<Rightarrow> 'w \<Rightarrow> 'e option \<times> 'w" where
  "emitChange c st w = (if isSubscribed c then wrapped_onChange c st w else (None, w))"

text \<open>
  The \<^verbatim>\<open>catch\<close> block of \<^verbatim>\<open>impl\<close>, entered with \<open>error\<close>: it returns the value that
  leaves the block as the reason of the rejection.
\<close>

definition impl_catch :: "('act, 'e, 'w) wrapped \<Rightarrow> 'e \<Rightarrow> 'w \<Rightarrow> 'e \<times> 'w" where
  "impl_catch c error w =
     (case emitChange c rejected w of
        (None, w') \<Rightarrow> (error, w')
      | (Some error', w') \<Rightarrow> (error', w'))"

definition impl_call ::
  "(('a, 'e, 'r, 'x) Action, 'e, 'w) wrapped \<Rightarrow> 'a \<Rightarrow> 'x \<Rightarrow> 'w \<Rightarrow>
     (('e, 'r) outcome + ('x \<Rightarrow> ('e, 'r) outcome)) \<times> 'w" where
  "impl_call c args x w =
     (case emitChange c pending w of
        (Some error, w1) \<Rightarrow> (Inl (Rejected error), w1)
      | (None, w1) \<Rightarrow>
          (case wrapped_action c args x of
             Returns promise \<Rightarrow> (Inr promise, w1)
           | Throws error \<Rightarrow>
               (case impl_catch c error w1 of (reason, w2) \<Rightarrow> (Inl (Rejected reason), w2))))"

definition impl_settle ::
  "('act, 'e, 'w) wrapped \<Rightarrow> ('x \<Rightarrow> ('e, 'r) outcome) \<Rightarrow> 'x \<Rightarrow> 'w \<Rightarrow> ('e, 'r) outcome \<times> 'w" where
  "impl_settle c promise x w =
     (case promise x of
        Fulfilled response \<Rightarrow>
          (case emitChange c resolved w of
             (None, w1) \<Rightarrow> (Fulfilled response, w1)
           | (Some error, w1) \<Rightarrow>
               (case impl_catch c error w1 of (reason, w2) \<Rightarrow> (Rejected reason, w2)))
      | Rejected error \<Rightarrow>
          (case impl_catch c error w of (reason, w1) \<Rightarrow> (Rejected reason, w1)))"

definition wrapActions ::
  "'act object \<Rightarrow> (string \<Rightarrow> PromiseState \<Rightarrow> 'w \<Rightarrow> 'e option \<times> 'w) \<Rightarrow>
     ('act, 'e, 'w) wrapped object" where
  "wrapActions actions onChange' =
     (let handleChange' = (\<lambda>key st. onChange' key st)
      in fromEntries
           (map (\<lambda>(key, v). (key, wrapAction v (\<lambda>st. handleChange' key st))) actions))"


section \<open>Action tracker\<close>

text \<open>
  \<^verbatim>\<open>trackActions\<close> keeps the variable \<^verbatim>\<open>promiseState\<close>, a reference to an object of
  counters. \<^verbatim>\<open>handleChange\<close> copies that object into a new one, changes the copy,
  stores the reference of the copy in \<^verbatim>\<open>promiseState\<close> and passes it to the callback
  \<^verbatim>\<open>onChange\<close>. Since the claims speak of fresh objects and of mutation in place, the
  objects live in a heap: a list of objects, a reference being an index into it, and
  an allocation appending to it. A reference that the program holds always lies within
  the heap; statements about one transition from an arbitrary state say so of
  \<^verbatim>\<open>promiseState\<close>. The callback is represented by the list of its calls: the reference
  it received together with the content of the object at that moment.
\<close>

record Tracker =
  heap :: "number object list"
  promiseState :: nat
  delivered :: "(nat \<times> number object) list"

definition handleChange :: "string \<Rightarrow> PromiseState \<Rightarrow> Tracker \<Rightarrow> Tracker" where
  "handleChange name st t =
     (let newState = length (heap t);
          h = heap t @ [heap t ! promiseState t];
          h' = (case st of
                  pending \<Rightarrow> h[newState := increment name (h ! newState)]
                | rejected \<Rightarrow> h[newState := decrement name (h ! newState)]
                | resolved \<Rightarrow> h[newState := decrement name (h ! newState)])
      in t\<lparr>heap := h', promiseState := newState,
           delivered := delivered t @ [(newState, h' ! newState)]\<rparr>)"

text \<open>
  The call \<^verbatim>\<open>onChange(newState)\<close> is the last statement of \<^verbatim>\<open>handleChange\<close>, so the
  tracker is in the state \<open>handleChange\<close> whether the callback returns or throws. The
  callback is a function of the consumer; \<open>onChange'\<close> gives what it does with the
  snapshots it has received so far, the last one being that of the present call: it
  returns, or it throws a value. \<open>handleChange_raising\<close> is \<^verbatim>\<open>handleChange\<close> as its
  caller \<^verbatim>\<open>emitChange\<close> meets it.
\<close>

definition handleChange_raising ::
  "((nat \<times> number object) list \<Rightarrow> 'e option) \<Rightarrow> string \<Rightarrow> PromiseState \<Rightarrow> Tracker \<Rightarrow>
     'e option \<times> Tracker" where
  "handleChange_raising onChange' name st t =
     (let t' = handleChange name st t in (onChange' (delivered t'), t'))"

text \<open>
  \<^verbatim>\<open>trackActions\<close> returns the wrapped actions and the reference \<^verbatim>\<open>initialState\<close>; the
  third component is the state its closures work on.
\<close>

definition trackActions ::
  "'act object \<Rightarrow> ((nat \<times> number object) list \<Rightarrow> 'e option) \<Rightarrow>
     ('act, 'e, Tracker) wrapped object \<times> nat \<times> Tracker" where
  "trackActions actions onChange' =
     (let t = \<lparr>heap = [fromEntries (map (\<lambda>key. (key, Num 0)) (keys actions))],
               promiseState = 0, delivered = []\<rparr>;
          wrappedActions = wrapActions actions (handleChange_raising onChange')
      in (wrappedActions, promiseState t, t))"

definition counter :: "Tracker \<Rightarrow> string \<Rightarrow> number option" where
  "counter t name = getProp (heap t ! promiseState t) name"


subsection \<open>Calls of tracked actions over time\<close>

text \<open>
  A run of the program invokes wrapped actions and, later and in any order, sees the
  awaited promises settle. \<open>inflight\<close> lists the invocations suspended at their
  \<^verbatim>\<open>await\<close>, oldest first, each with the name of its wrapper and the promise that the
  action returned; \<open>Settle i x\<close> resumes the \<open>i\<close>-th of them when its promise settles,
  the surroundings being \<open>x\<close>. An invocation of a name that is not a key of the wrapped
  actions is a call of \<^verbatim>\<open>undefined\<close>, which reaches no wrapper; settling what is not in
  flight does not happen. Neither changes the state. \<^verbatim>\<open>wrapActions\<close> keeps the \<^verbatim>\<open>action\<close>
  of each wrapper and drops its \<^verbatim>\<open>unsubscribe\<close>, so no event of a run unsubscribes a
  wrapper.
\<close>

record ('a, 'e, 'r, 'x) System =
  tracker :: Tracker
  wrappedActions :: "(('a, 'e, 'r, 'x) Action, 'e, Tracker) wrapped object"
  inflight :: "(string \<times> ('x \<Rightarrow> ('e, 'r) outcome)) list"

datatype ('a, 'x) event = Invoke string 'a 'x | Settle nat 'x

definition init ::
  "('a, 'e, 'r, 'x) Action object \<Rightarrow> ((nat \<times> number object) list \<Rightarrow> 'e option) \<Rightarrow>
     ('a, 'e, 'r, 'x) System" where
  "init actions onChange' =
     (case trackActions actions onChange' of (wrapped, initialState, t) \<Rightarrow>
        \<lparr>tracker = t, wrappedActions = wrapped, inflight = []\<rparr>)"

fun step :: "('a, 'x) event \<Rightarrow> ('a, 'e, 'r, 'x) System \<Rightarrow> ('a, 'e, 'r, 'x) System" where
  "step (Invoke name args x) s =
     (case getProp (wrappedActions s) name of
        None \<Rightarrow> s
      | Some c \<Rightarrow>
          (case impl_call c args x (tracker s) of
             (Inr promise, t) \<Rightarrow> s\<lparr>tracker := t, inflight := inflight s @ [(name, promise)]\<rparr>
           | (Inl settled, t) \<Rightarrow> s\<lparr>tracker := t\<rparr>))"
| "step (Settle i x) s =
     (if i < length (inflight s) then
        (case inflight s ! i of (name, promise) \<Rightarrow>
           (case getProp (wrappedActions s) name of
              None \<Rightarrow> s
            | Some c \<Rightarrow>
                s\<lparr>tracker := snd (impl_settle c promise x (tracker s)),
                  inflight := take i (inflight s) @ drop (Suc i) (inflight s)\<rparr>))
      else s)"

definition run :: "('a, 'x) event list \<Rightarrow> ('a, 'e, 'r, 'x) System \<Rightarrow> ('a, 'e, 'r, 'x) System" where
  "run events s = fold step events s"


section \<open>Selector binding\<close>

text \<open>
  \<^verbatim>\<open>useSelector\<close> keeps the selected value in \<^verbatim>\<open>selectedStateRef.current\<close> and asks for
  a new rendering by \<^verbatim>\<open>forceRender()\<close>, the dispatch of a reducer that counts up;
  \<open>renders\<close> counts these calls. Its effect registers the closure \<^verbatim>\<open>refresh\<close> as a
  listener of the repository. \<^verbatim>\<open>refresh\<close> ignores the arguments of the notification
  and reads \<^verbatim>\<open>repository.state\<close>.

  \<^verbatim>\<open>isEqualRef\<close> is \<^verbatim>\<open>===\<close>: primitive values are equal when they are the same value,
  except that \<^verbatim>\<open>NaN\<close> differs from itself, and objects are equal when they are the same
  reference. Numbers are the integers and \<^verbatim>\<open>NaN\<close>.
\<close>

datatype jsval = Undefined | Null | Boolean bool | Number number | String string | Object nat








section \<open>Listeners, actions and callbacks of the examples\<close>

text \<open>
  One listener function, with reference 1, is registered twice on a new repository
  with state 0; \<open>first_unsubscribe\<close> is the function the first registration returned.
\<close>

definition registered_twice :: "(nat, nat) Repository" where
  "registered_twice = snd (onChange 1 (snd (onChange 1 (createRepository 0))))"

definition first_unsubscribe :: "(nat, nat) Repository \<Rightarrow> (nat, nat) Repository" where
  "first_unsubscribe = fst (onChange 1 (createRepository 0))"

text \<open>
  Two listener functions, 1 registered before 2, on a new repository with state 0, and
  four choices of what listener 1 does when it is notified, listener 2 doing nothing:
  nothing; a call \<^verbatim>\<open>setState(9)\<close> when the new state is 5; a throw; a call of the
  unsubscribe function of listener 2.
\<close>

definition two_listeners :: "(nat, nat) Repository" where
  "two_listeners = snd (onChange 2 (snd (onChange 1 (createRepository 0))))"

definition inert :: "(nat, nat, string) bodies" where
  "inert listener newState oldState = []"

definition reentrant :: "(nat, nat, string) bodies" where
  "reentrant listener newState oldState =
     (if listener = 1 \<and> newState = 5 then [SetState 9] else [])"

definition throwing :: "(nat, nat, string) bodies" where
  "throwing listener newState oldState = (if listener = 1 then [Throw ''listener failed''] else [])"

definition unsubscribing :: "(nat, nat, string) bodies" where
  "unsubscribing listener newState oldState = (if listener = 1 then [Unsubscribe 2] else [])"

text \<open>
  The actions of the counter store of \<^verbatim>\<open>index.tsx\<close>, on states (value, version).
  \<^verbatim>\<open>increment\<close> reads the state after its delay, when it completes; \<^verbatim>\<open>decrement\<close> and
  \<^verbatim>\<open>reset\<close> read it when they are called. \<open>toFive\<close> is an action on numbers that
  resolves to 5. \<open>clicks\<close> is a run in which \<^verbatim>\<open>increment\<close>, \<^verbatim>\<open>reset\<close> and \<^verbatim>\<open>increment\<close>
  are invoked and the \<^verbatim>\<open>reset\<close> then settles; in \<open>click\<close> one \<^verbatim>\<open>increment\<close> is
  invoked and settles.
\<close>

type_synonym CounterState = "int \<times> int"

definition increment_promise :: "int \<Rightarrow> CounterState \<Rightarrow> (string, CounterState) outcome" where
  "increment_promise count s' = Fulfilled (fst s' + count, snd s' + 1)"

definition counter_increment :: "(int, string, CounterState, CounterState) Action" where
  "counter_increment count s = Returns (increment_promise count)"

definition counter_decrement :: "(int, string, CounterState, CounterState) Action" where
  "counter_decrement count s = Returns (\<lambda>s'. Fulfilled (fst s - count, snd s + 1))"

definition counter_reset :: "(int, string, CounterState, CounterState) Action" where
  "counter_reset count s = Returns (\<lambda>s'. Fulfilled (0, snd s + 1))"

definition counterActions :: "(int, string, CounterState, CounterState) Action object" where
  "counterActions =
     [(''increment'', counter_increment), (''decrement'', counter_decrement),
      (''reset'', counter_reset)]"

definition five :: "nat \<Rightarrow> (string, nat) outcome" where
  "five s' = Fulfilled 5"

definition toFive :: "(unit, string, nat, nat) Action" where
  "toFive args s = Returns five"

definition clicks :: "(int, CounterState) event list" where
  "clicks = [Invoke ''increment'' 1 (0, 0), Invoke ''reset'' 0 (0, 0),
     Invoke ''increment'' 1 (0, 0), Settle 1 (0, 0)]"

definition click :: "(int, CounterState) event list" where
  "click = [Invoke ''increment'' 1 (0, 0), Settle 0 (0, 0)]"

text \<open>
  Callbacks: \<open>logPhase\<close> is a listener for \<^verbatim>\<open>wrapActions\<close> that appends each event to a
  list and returns; \<open>logPhase_failing\<close> does the same and throws on resolved events.
  \<open>failsAt n\<close> is a callback for \<^verbatim>\<open>trackActions\<close> that throws when the snapshot it
  receives has the counter \<open>n\<close> for \<^verbatim>\<open>increment\<close>.
\<close>

definition logPhase ::
  "string \<Rightarrow> PromiseState \<Rightarrow> (string \<times> PromiseState) list \<Rightarrow>
     string option \<times> (string \<times> PromiseState) list" where
  "logPhase name st w = (None, w @ [(name, st)])"

definition logPhase_failing ::
  "string \<Rightarrow> PromiseState \<Rightarrow> (string \<times> PromiseState) list \<Rightarrow>
     string option \<times> (string \<times> PromiseState) list" where
  "logPhase_failing name st w =
     (if st = resolved then Some ''callback failed'' else None, w @ [(name, st)])"

definition failsAt :: "int \<Rightarrow> (nat \<times> number object) list \<Rightarrow> string option" where
  "failsAt n h =
     (case rev h of
        [] \<Rightarrow> None
      | (newState, obj) # earlier \<Rightarrow>
          if getProp obj ''increment'' = Some (Num n) then Some ''callback failed'' else None)"




section \<open>Invariants of a run\<close>

text \<open>
  \<open>tracked\<close>: every wrapper is subscribed and reports to \<^verbatim>\<open>handleChange\<close> under its own
  name, with a callback that never throws, and the counter of every wrapped name is the
  number of its invocations in flight.
\<close>

definition tracked :: "('a, 'e, 'r, 'x) System \<Rightarrow> bool" where
  "tracked s \<longleftrightarrow>
     (\<forall>name c. getProp (wrappedActions s) name = Some c \<longrightarrow>
        isSubscribed c \<and> wrapped_onChange c = handleChange_raising (\<lambda>h. None) name)
     \<and> (\<forall>name. getProp (wrappedActions s) name \<noteq> None \<longrightarrow>
        counter (tracker s) name =
          Some (Num (int (count_list (map fst (inflight s)) name))))"

text \<open>
  \<open>snapshots\<close>: the first object of the heap is still the initial object \<open>obj0\<close>;
  \<^verbatim>\<open>promiseState\<close> refers to an object with the keys of \<open>obj0\<close>; the references passed
  to the callback are pairwise different and none is the initial one; every object passed
  is in the heap as it was when passed, with the keys of \<open>obj0\<close>.
\<close>

definition snapshots :: "number object \<Rightarrow> Tracker \<Rightarrow> bool" where
  "snapshots obj0 t \<longleftrightarrow>
     heap t \<noteq> [] \<and> heap t ! 0 = obj0
     \<and> promiseState t < length (heap t)
     \<and> set (keys (heap t ! promiseState t)) = set (keys obj0)
     \<and> distinct (map fst (delivered t))
     \<and> (\<forall>(a, obj) \<in> set (delivered t).
          0 < a \<and> a < length (heap t) \<and> heap t ! a = obj \<and> set (keys obj) = set (keys obj0))"

definition kept ::
  "number object \<Rightarrow> ((nat \<times> number object) list \<Rightarrow> 'e option) \<Rightarrow> ('a, 'e, 'r, 'x) System \<Rightarrow> bool" where
  "kept obj0 onChange' s \<longleftrightarrow>
     snapshots obj0 (tracker s)
     \<and> (\<forall>name c. getProp (wrappedActions s) name = Some c \<longrightarrow>
          name \<in> set (keys obj0) \<and> wrapped_onChange c = handleChange_raising onChange' name)"


section \<open>Properties of objects\<close>

lemma getProp_setProp:
  "getProp (setProp k v obj) k' = (if k' = k then Some v else getProp obj k')"
  by (induction obj) (auto simp: getProp_def)

lemma keys_setProp_list:
  "keys (setProp k v obj) = (if k \<in> set (keys obj) then keys obj else keys obj @ [k])"
  by (induction obj) (force simp: keys_def)+

lemma keys_setProp: "set (keys (setProp k v obj)) = insert k (set (keys obj))"
  by (auto simp: keys_setProp_list)

lemma getProp_fold_setProp:
  "getProp (fold (\<lambda>(key, v) obj. setProp key v obj) es obj) k =
     (case map_of (rev es) k of Some v \<Rightarrow> Some v | None \<Rightarrow> getProp obj k)"
  by (induction es arbitrary: obj)
     (auto simp: getProp_setProp map_add_def split: option.splits)

lemma keys_fold_setProp:
  "set (keys (fold (\<lambda>(key, v) obj. setProp key v obj) es obj)) = fst ` set es \<union> set (keys obj)"
  by (induction es arbitrary: obj) (auto simp: keys_setProp)

lemma getProp_Nil: "getProp [] k = None"
  by (simp add: getProp_def)

lemma keys_Nil: "keys [] = []"
  by (simp add: keys_def)

lemma getProp_fromEntries: "getProp (fromEntries es) k = map_of (rev es) k"
  by (simp add: fromEntries_def getProp_fold_setProp getProp_Nil split: option.splits)

lemma keys_fromEntries: "set (keys (fromEntries es)) = fst ` set es"
  by (simp add: fromEntries_def keys_fold_setProp keys_Nil)

lemma getProp_None: "getProp obj k = None \<longleftrightarrow> k \<notin> set (keys obj)"
  by (simp add: getProp_def keys_def map_of_eq_None_iff)

lemma map_of_rev_const:
  "map_of (rev (map (\<lambda>key. (key, c)) ks)) k = (if k \<in> set ks then Some c else None)"
  by (induction ks) (auto simp: map_add_def split: option.splits)


section \<open>Notification of listeners\<close>

lemma setState_fst: "fst (setState v r) = r\<lparr>state := v\<rparr>"
  by (simp add: setState_def Let_def)

lemma setState_snd: "snd (setState v r) = map (\<lambda>l. (l, v, state r)) (eventEmitter r)"
  by (simp add: setState_def Let_def emit_def)

lemma state_perform: "state (perform c r) = state r"
  by (cases c) (simp_all add: onChange_def)

lemma state_fold_perform: "state (fold perform ks r) = state r"
  by (induction ks arbitrary: r) (simp_all add: state_perform)

lemma exec_commands:
  "list_all benign ks \<Longrightarrow> length ks \<le> fuel \<Longrightarrow>
     exec fuel body (map Do ks @ ws) (r, log) =
       exec (fuel - length ks) body ws (fold perform ks r, log)"
proof (induction ks arbitrary: fuel r)
  case Nil
  then show ?case by simp
next
  case (Cons k ks)
  from Cons.prems obtain n where n: "fuel = Suc n" "length ks \<le> n"
    by (cases fuel) auto
  from Cons.prems have b: "benign k" "list_all benign ks" by simp_all
  from b(1) n Cons.IH [OF b(2) n(2)] show ?case
    by (cases k) simp_all
qed

lemma cost_Cons:
  "cost body ((l, new, old) # cs) = Suc (length (body l new old) + cost body cs)"
  by (simp add: cost_def commands_def)

lemma commands_Cons: "commands body ((l, new, old) # cs) = body l new old @ commands body cs"
  by (simp add: commands_def)

lemma exec_calls:
  "quiet body \<Longrightarrow> cost body cs \<le> fuel \<Longrightarrow>
     exec fuel body (map calling cs @ ws) (r, log) =
       exec (fuel - cost body cs) body ws
         (fold perform (commands body cs) r,
          log @ map (\<lambda>(l, new, old). (l, new, old, state r)) cs)"
proof (induction cs arbitrary: fuel r log)
  case Nil
  then show ?case by (simp add: cost_def commands_def)
next
  case (Cons c cs)
  obtain l new old where c: "c = (l, new, old)" by (cases c) auto
  let ?ks = "body l new old"
  from Cons.prems c obtain n where n: "fuel = Suc n" "length ?ks + cost body cs \<le> n"
    by (cases fuel) (auto simp: cost_Cons)
  from Cons.prems(1) have q: "list_all benign ?ks" by (simp add: quiet_def)
  have 1: "exec fuel body (map calling (c # cs) @ ws) (r, log) =
        exec n body (map Do ?ks @ (map calling cs @ ws)) (r, log @ [(l, new, old, state r)])"
    by (simp add: c n calling_def)
  have 2: "\<dots> = exec (n - length ?ks) body (map calling cs @ ws)
        (fold perform ?ks r, log @ [(l, new, old, state r)])"
    using q n by (intro exec_commands) simp_all
  have 3: "\<dots> = exec (n - length ?ks - cost body cs) body ws
        (fold perform (commands body cs) (fold perform ?ks r),
         (log @ [(l, new, old, state r)]) @
           map (\<lambda>(l, new, old). (l, new, old, state (fold perform ?ks r))) cs)"
    using Cons.prems(1) n by (intro Cons.IH) simp_all
  from 1 2 3 show ?case
    by (simp add: c n cost_Cons commands_Cons state_fold_perform)
qed

lemma call_setState_quiet:
  "quiet body \<Longrightarrow> Suc (cost body (snd (setState v r))) \<le> fuel \<Longrightarrow>
     call_setState fuel body v (r, log) =
       Some (None, fold perform (commands body (snd (setState v r))) (r\<lparr>state := v\<rparr>),
             log @ map (\<lambda>l. (l, v, state r, v)) (eventEmitter r))"
proof -
  assume q: "quiet body" and f: "Suc (cost body (snd (setState v r))) \<le> fuel"
  let ?cs = "snd (setState v r)"
  from f obtain n where n: "fuel = Suc n" "cost body ?cs \<le> n" by (cases fuel) auto
  have cs: "?cs = map (\<lambda>l. (l, v, state r)) (eventEmitter r)"
    by (rule setState_snd)
  have "call_setState fuel body v (r, log) = exec n body (map calling ?cs @ []) (r\<lparr>state := v\<rparr>, log)"
    unfolding call_setState_def n by (simp add: split_def setState_fst del: append_Nil2)
  also have "\<dots> = exec (n - cost body ?cs) body []
      (fold perform (commands body ?cs) (r\<lparr>state := v\<rparr>),
       log @ map (\<lambda>(l, new, old). (l, new, old, state (r\<lparr>state := v\<rparr>))) ?cs)"
    using q n(2) by (rule exec_calls)
  finally show ?thesis
    by (simp add: cs comp_def)
qed

lemma count_list_remove1_other: "k \<noteq> l \<Longrightarrow> count_list (remove1 k xs) l = count_list xs l"
  by (induction xs) auto

lemma count_list_rev: "count_list (rev xs) l = count_list xs l"
  by (induction xs) simp_all

lemma count_list_off_other: "k \<noteq> l \<Longrightarrow> count_list (off k ls) l = count_list ls l"
  by (simp add: off_def count_list_rev count_list_remove1_other)

lemma count_list_on_other: "k \<noteq> l \<Longrightarrow> count_list (on k ls) l = count_list ls l"
  by (simp add: on_def)

lemma count_perform:
  "k \<noteq> OnChange l \<Longrightarrow> k \<noteq> Unsubscribe l \<Longrightarrow>
     count_list (eventEmitter (perform k r)) l = count_list (eventEmitter r) l"
  by (cases k) (simp_all add: onChange_def count_list_on_other count_list_off_other)

lemma count_fold_perform:
  "OnChange l \<notin> set ks \<Longrightarrow> Unsubscribe l \<notin> set ks \<Longrightarrow>
     count_list (eventEmitter (fold perform ks r)) l = count_list (eventEmitter r) l"
proof (induction ks arbitrary: r)
  case Nil
  then show ?case by simp
next
  case (Cons k ks)
  then have "k \<noteq> OnChange l" "k \<noteq> Unsubscribe l" by auto
  with Cons show ?case by (simp add: count_perform)
qed

lemma untouched_commands:
  "untouched body l \<Longrightarrow> OnChange l \<notin> set (commands body cs) \<and> Unsubscribe l \<notin> set (commands body cs)"
  by (auto simp: untouched_def commands_def)

lemma observed_append: "observed l (xs @ ys) = observed l xs @ observed l ys"
  by (simp add: observed_def)

lemma observed_emission:
  "observed l (map (\<lambda>k. (k, p)) ls) = replicate (count_list ls l) p"
  by (induction ls) (simp_all add: observed_def)

lemma call_setStates_quiet:
  assumes q: "quiet body" and u: "untouched body l"
  shows "count_list (eventEmitter r) l = 1 \<Longrightarrow>
    \<exists>n. \<forall>fuel\<ge>n. \<exists>r' log'.
      call_setStates fuel body vs (r, log) = Some (None, r', log')
      \<and> state r' = last (state r # vs)
      \<and> count_list (eventEmitter r') l = 1
      \<and> observed l log' =
          observed l log @ map (\<lambda>(new, old). (new, old, new)) (zip vs (state r # vs))"
proof (induction vs arbitrary: r log)
  case Nil
  then show ?case by simp
next
  case (Cons v vs)
  let ?r1 = "fold perform (commands body (snd (setState v r))) (r\<lparr>state := v\<rparr>)"
  let ?log1 = "log @ map (\<lambda>l. (l, v, state r, v)) (eventEmitter r)"
  let ?n1 = "Suc (cost body (snd (setState v r)))"
  have c1: "count_list (eventEmitter ?r1) l = 1"
    using untouched_commands [OF u] Cons.prems by (simp add: count_fold_perform)
  have s1: "state ?r1 = v" by (simp add: state_fold_perform)
  have o1: "observed l ?log1 = observed l log @ [(v, state r, v)]"
    using Cons.prems by (simp add: observed_append observed_emission)
  from Cons.IH [OF c1, of ?log1] obtain n2 where n2:
    "\<forall>fuel\<ge>n2. \<exists>r' log'.
      call_setStates fuel body vs (?r1, ?log1) = Some (None, r', log')
      \<and> state r' = last (state ?r1 # vs)
      \<and> count_list (eventEmitter r') l = 1
      \<and> observed l log' =
          observed l ?log1 @ map (\<lambda>(new, old). (new, old, new)) (zip vs (state ?r1 # vs))"
    by blast
  show ?case
  proof (rule exI [of _ "max ?n1 n2"], intro allI impI)
    fix fuel assume f: "max ?n1 n2 \<le> fuel"
    then have "call_setState fuel body v (r, log) = Some (None, ?r1, ?log1)"
      using q by (intro call_setState_quiet) simp_all
    moreover from f n2 obtain r' log' where
      "call_setStates fuel body vs (?r1, ?log1) = Some (None, r', log')"
      "state r' = last (state ?r1 # vs)" "count_list (eventEmitter r') l = 1"
      "observed l log' =
          observed l ?log1 @ map (\<lambda>(new, old). (new, old, new)) (zip vs (state ?r1 # vs))"
      by (meson max.boundedE)
    ultimately show "\<exists>r' log'.
      call_setStates fuel body (v # vs) (r, log) = Some (None, r', log')
      \<and> state r' = last (state r # v # vs)
      \<and> count_list (eventEmitter r') l = 1
      \<and> observed l log' =
          observed l log @ map (\<lambda>(new, old). (new, old, new)) (zip (v # vs) (state r # v # vs))"
      using s1 o1 by simp
  qed
qed


text \<open>
  C1, as the code has it. \<^verbatim>\<open>onChange\<close> puts the listener at the end of the array. With
  listeners that neither throw nor call \<^verbatim>\<open>setState\<close> while they are notified, a call
  \<^verbatim>\<open>setState(v)\<close> returns; it has stored \<open>v\<close> in \<^verbatim>\<open>repository.state\<close> and then called
  every registration that the array held when the call was made exactly once, in
  registration order, with (\<open>v\<close>, previous state), each listener finding \<open>v\<close> in the
  repository; nothing compares \<open>v\<close> with the previous state, so this is so also when
  the two are equal. With such listeners a sequence \<^verbatim>\<open>setState(v1), ..., setState(vn)\<close>
  returns as well, and a listener function that has one registration at the start and
  that no listener subscribes or unsubscribes is called exactly \<open>n\<close> times, with
  \<open>(v1, v0), (v2, v1), ..., (vn, v(n-1))\<close> in this order, \<open>v0\<close> being the state before
  the first call (for a new repository, the initial state).
\<close>

theorem setState_notifies_quiet_listeners:
  "eventEmitter (snd (onChange l r)) = eventEmitter r @ [l]
   \<and> state (createRepository v0 :: ('v, 'l) Repository) = v0
   \<and> (quiet body \<longrightarrow>
        (\<forall>fuel\<ge>Suc (cost body (snd (setState v r))).
           call_setState fuel body v (r, log) =
             Some (None, fold perform (commands body (snd (setState v r))) (r\<lparr>state := v\<rparr>),
                   log @ map (\<lambda>k. (k, v, state r, v)) (eventEmitter r)))
        \<and> state (fold perform (commands body (snd (setState v r))) (r\<lparr>state := v\<rparr>)) = v)
   \<and> (quiet body \<and> untouched body l \<and> count_list (eventEmitter r) l = 1 \<longrightarrow>
        (\<exists>n. \<forall>fuel\<ge>n. \<exists>r' log'.
           call_setStates fuel body vs (r, log) = Some (None, r', log')
           \<and> state r' = last (state r # vs)
           \<and> observed l log' =
               observed l log @ map (\<lambda>(new, old). (new, old, new)) (zip vs (state r # vs))))"
proof -
  have 1: "eventEmitter (snd (onChange l r)) = eventEmitter r @ [l]"
    by (simp add: onChange_def on_def)
  have 2: "state (createRepository v0 :: ('v, 'l) Repository) = v0"
    by (simp add: createRepository_def)
  have 3: "quiet body \<longrightarrow>
        (\<forall>fuel\<ge>Suc (cost body (snd (setState v r))).
           call_setState fuel body v (r, log) =
             Some (None, fold perform (commands body (snd (setState v r))) (r\<lparr>state := v\<rparr>),
                   log @ map (\<lambda>k. (k, v, state r, v)) (eventEmitter r)))
        \<and> state (fold perform (commands body (snd (setState v r))) (r\<lparr>state := v\<rparr>)) = v"
    by (simp add: call_setState_quiet state_fold_perform)
  have 4: "quiet body \<and> untouched body l \<and> count_list (eventEmitter r) l = 1 \<longrightarrow>
        (\<exists>n. \<forall>fuel\<ge>n. \<exists>r' log'.
           call_setStates fuel body vs (r, log) = Some (None, r', log')
           \<and> state r' = last (state r # vs)
           \<and> observed l log' =
               observed l log @ map (\<lambda>(new, old). (new, old, new)) (zip vs (state r # vs)))"
  proof (intro impI, elim conjE)
    assume "quiet body" "untouched body l" "count_list (eventEmitter r) l = 1"
    from call_setStates_quiet [OF this, of vs log] obtain n where
      "\<forall>fuel\<ge>n. \<exists>r' log'.
         call_setStates fuel body vs (r, log) = Some (None, r', log')
         \<and> state r' = last (state r # vs)
         \<and> count_list (eventEmitter r') l = 1
         \<and> observed l log' =
             observed l log @ map (\<lambda>(new, old). (new, old, new)) (zip vs (state r # vs))"
      by (elim exE)
    then have "\<forall>fuel\<ge>n. \<exists>r' log'.
         call_setStates fuel body vs (r, log) = Some (None, r', log')
         \<and> state r' = last (state r # vs)
         \<and> observed l log' =
             observed l log @ map (\<lambda>(new, old). (new, old, new)) (zip vs (state r # vs))"
      by meson
    then show "\<exists>n. \<forall>fuel\<ge>n. \<exists>r' log'.
           call_setStates fuel body vs (r, log) = Some (None, r', log')
           \<and> state r' = last (state r # vs)
           \<and> observed l log' =
               observed l log @ map (\<lambda>(new, old). (new, old, new)) (zip vs (state r # vs))"
      by (rule exI)
  qed
  from 1 2 3 4 show ?thesis by (intro conjI)
qed

theorem setState_notifies_quiet_listeners_witness:
  "quiet inert \<and> untouched inert 2 \<and> count_list (eventEmitter two_listeners) 2 = 1
   \<and> eventEmitter two_listeners = [1, 2]
   \<and> call_setState 3 inert 4 (two_listeners, []) =
       Some (None, \<lparr>state = 4, eventEmitter = [1, 2]\<rparr>, [(1, 4, 0, 4), (2, 4, 0, 4)])
   \<and> (\<exists>n. \<forall>fuel\<ge>n. \<exists>r' log'.
         call_setStates fuel inert [4, 4, 9] (two_listeners, []) = Some (None, r', log')
         \<and> state r' = 9
         \<and> observed 2 log' = [(4, 0, 4), (4, 4, 4), (9, 4, 9)])
   \<and> call_setStates 3 inert [4, 4, 9] (two_listeners, []) =
       Some (None, \<lparr>state = 9, eventEmitter = [1, 2]\<rparr>,
             [(1, 4, 0, 4), (2, 4, 0, 4), (1, 4, 4, 4), (2, 4, 4, 4), (1, 9, 4, 9), (2, 9, 4, 9)])"
proof -
  note t = setState_notifies_quiet_listeners [where r = two_listeners and l = 2 and body = inert
      and v = 4 and vs = "[4, 4, 9]" and log = "[]" and ?v0.0 = 0]
  have q: "quiet inert" by (simp add: quiet_def inert_def)
  have u: "untouched inert 2" by (simp add: untouched_def inert_def)
  have e: "eventEmitter two_listeners = [1, 2]" "state two_listeners = 0"
    by (simp_all add: two_listeners_def onChange_def on_def createRepository_def)
  then have c: "count_list (eventEmitter two_listeners) 2 = 1" by simp
  have k: "Suc (cost inert (snd (setState 4 two_listeners))) = 3"
    by code_simp
  have p: "fold perform (commands inert (snd (setState 4 two_listeners)))
             (two_listeners\<lparr>state := 4\<rparr>) = \<lparr>state = 4, eventEmitter = [1, 2]\<rparr>"
    by code_simp
  note a = t [THEN conjunct2, THEN conjunct2, THEN conjunct1, THEN mp, OF q, THEN conjunct1,
      THEN spec, of 3, THEN mp]
  have 1: "call_setState 3 inert 4 (two_listeners, []) =
       Some (None, \<lparr>state = 4, eventEmitter = [1, 2]\<rparr>, [(1, 4, 0, 4), (2, 4, 0, 4)])"
    using a k p e by simp
  note b = t [THEN conjunct2, THEN conjunct2, THEN conjunct2, THEN mp, OF conjI [OF q conjI [OF u c]]]
  have 2: "\<exists>n. \<forall>fuel\<ge>n. \<exists>r' log'.
         call_setStates fuel inert [4, 4, 9] (two_listeners, []) = Some (None, r', log')
         \<and> state r' = 9
         \<and> observed 2 log' = [(4, 0, 4), (4, 4, 4), (9, 4, 9)]"
    using b e by (simp add: observed_def)
  have 3: "call_setStates 3 inert [4, 4, 9] (two_listeners, []) =
       Some (None, \<lparr>state = 9, eventEmitter = [1, 2]\<rparr>,
             [(1, 4, 0, 4), (2, 4, 0, 4), (1, 4, 4, 4), (2, 4, 4, 4), (1, 9, 4, 9), (2, 9, 4, 9)])"
    by code_simp
  from q u c e(1) 1 2 3 show ?thesis by (intro conjI)
qed

text \<open>
  C1, as the claim states it, fails for listeners that call \<^verbatim>\<open>setState\<close> or throw. When
  listener 1 answers the new state 5 with \<^verbatim>\<open>setState(9)\<close>, the emission of that call is
  finished before listener 2 is called for the first: listener 2, subscribed all the
  time, sees (9, 5) before (5, 0), and finds 9 in the repository when it is told that
  the new state is 5. When listener 1 throws, the state has been replaced and listener 2
  is not called at all.
\<close>

theorem reentrant_listener_counterexample:
  "call_setState 10 reentrant 5 (two_listeners, []) =
     Some (None, \<lparr>state = 9, eventEmitter = [1, 2]\<rparr>,
           [(1, 5, 0, 5), (1, 9, 5, 9), (2, 9, 5, 9), (2, 5, 0, 9)])
   \<and> call_setState 10 throwing 5 (two_listeners, []) =
       Some (Some ''listener failed'', \<lparr>state = 5, eventEmitter = [1, 2]\<rparr>, [(1, 5, 0, 5)])"
  by code_simp


section \<open>Unsubscribing a listener\<close>

lemma off_absent: "l \<notin> set ls \<Longrightarrow> off l ls = ls"
  by (simp add: off_def remove1_idem)

lemma remove1_single: "count_list xs l = 1 \<Longrightarrow> remove1 l xs = filter (\<lambda>x. x \<noteq> l) xs"
proof (induction xs)
  case Nil
  then show ?case by simp
next
  case (Cons a xs)
  show ?case
  proof (cases "a = l")
    case True
    with Cons.prems have "count_list xs l = 0" by simp
    then have "l \<notin> set xs" by (simp add: count_list_0_iff)
    then have "filter (\<lambda>x. x \<noteq> l) xs = xs" by (auto simp: filter_id_conv)
    with True show ?thesis by simp
  next
    case False
    with Cons show ?thesis by simp
  qed
qed

lemma off_single: "count_list ls l = 1 \<Longrightarrow> off l ls = filter (\<lambda>x. x \<noteq> l) ls"
  by (simp add: off_def remove1_single count_list_rev rev_filter)

lemma set_off: "set (off k ls) \<subseteq> set ls"
  using set_remove1_subset [of k "rev ls"] by (auto simp: off_def)

lemma observed_snoc_other: "k \<noteq> l \<Longrightarrow> observed l (log @ [(k, p)]) = observed l log"
  by (simp add: observed_def)

lemma exec_absent:
  assumes b: "\<forall>k new old. OnChange l \<notin> set (body k new old)"
  shows "exec fuel body ws (r, log) = Some (x, r', log') \<Longrightarrow>
    l \<notin> set (eventEmitter r) \<Longrightarrow> Do (OnChange l) \<notin> set ws \<Longrightarrow>
    (\<forall>new old. Call l new old \<notin> set ws) \<Longrightarrow>
    observed l log' = observed l log \<and> l \<notin> set (eventEmitter r')"
proof (induction fuel arbitrary: ws r log)
  case 0
  then show ?case by (cases ws) simp_all
next
  case (Suc n)
  show ?case
  proof (cases ws)
    case Nil
    with Suc.prems show ?thesis by simp
  next
    case (Cons w rest)
    show ?thesis
    proof (cases w)
      case (Call k new old)
      with Cons Suc.prems have kl: "k \<noteq> l" by auto
      have e: "exec n body (map Do (body k new old) @ rest) (r, log @ [(k, new, old, state r)]) =
              Some (x, r', log')"
        using Suc.prems(1) Cons Call by simp
      have d: "Do (OnChange l) \<notin> set (map Do (body k new old) @ rest)"
        using b Suc.prems(3) Cons by auto
      have c: "\<forall>new' old'. Call l new' old' \<notin> set (map Do (body k new old) @ rest)"
        using Suc.prems(4) Cons by auto
      from Suc.IH [OF e Suc.prems(2) d c] kl show ?thesis
        by (simp add: observed_snoc_other)
    next
      case (Do c)
      show ?thesis
      proof (cases c)
        case (Throw e)
        with Do Cons Suc.prems show ?thesis by simp
      next
        case (SetState v)
        have e: "exec n body (map calling (snd (setState v r)) @ rest) (r\<lparr>state := v\<rparr>, log) =
                Some (x, r', log')"
          using Suc.prems(1) Cons Do SetState by (simp add: split_def setState_fst)
        have c: "\<forall>new old. Call l new old \<notin> set (map calling (snd (setState v r)) @ rest)"
          using Suc.prems(2,4) Cons by (auto simp: setState_snd calling_def)
        have d: "Do (OnChange l) \<notin> set (map calling (snd (setState v r)) @ rest)"
          using Suc.prems(3) Cons by (auto simp: setState_snd calling_def)
        have a: "l \<notin> set (eventEmitter (r\<lparr>state := v\<rparr>))"
          using Suc.prems(2) by simp
        from Suc.IH [OF e a d c] show ?thesis .
      next
        case (OnChange k)
        with Do Cons Suc.prems(3) have kl: "k \<noteq> l" by auto
        have e: "exec n body rest (snd (onChange k r), log) = Some (x, r', log')"
          using Suc.prems(1) Cons Do OnChange by simp
        have a: "l \<notin> set (eventEmitter (snd (onChange k r)))"
          using Suc.prems(2) kl by (simp add: onChange_def on_def)
        have d: "Do (OnChange l) \<notin> set rest" using Suc.prems(3) Cons by simp
        have c: "\<forall>new old. Call l new old \<notin> set rest" using Suc.prems(4) Cons by simp
        from Suc.IH [OF e a d c] show ?thesis .
      next
        case (Unsubscribe k)
        have e: "exec n body rest (fst (onChange k r) r, log) = Some (x, r', log')"
          using Suc.prems(1) Cons Do Unsubscribe by simp
        have a: "l \<notin> set (eventEmitter (fst (onChange k r) r))"
          using Suc.prems(2) set_off [of k "eventEmitter r"] by (auto simp: onChange_def)
        have d: "Do (OnChange l) \<notin> set rest" using Suc.prems(3) Cons by simp
        have c: "\<forall>new old. Call l new old \<notin> set rest" using Suc.prems(4) Cons by simp
        from Suc.IH [OF e a d c] show ?thesis .
      qed
    qed
  qed
qed

lemma call_setStates_absent:
  assumes b: "\<forall>k new old. OnChange l \<notin> set (body k new old)"
  shows "call_setStates fuel body vs (r, log) = Some (x, r', log') \<Longrightarrow>
    l \<notin> set (eventEmitter r) \<Longrightarrow>
    observed l log' = observed l log \<and> l \<notin> set (eventEmitter r')"
proof (induction vs arbitrary: r log)
  case Nil
  then show ?case by simp
next
  case (Cons v vs)
  show ?case
  proof (cases "call_setState fuel body v (r, log)")
    case None
    with Cons.prems show ?thesis by simp
  next
    case (Some y)
    obtain e r1 log1 where y: "y = (e, r1, log1)" by (cases y) auto
    from Some y have "exec fuel body [Do (SetState v)] (r, log) = Some (e, r1, log1)"
      by (simp add: call_setState_def)
    from exec_absent [OF b this] Cons.prems(2)
    have 1: "observed l log1 = observed l log" "l \<notin> set (eventEmitter r1)" by simp_all
    show ?thesis
    proof (cases e)
      case None
      with Some y Cons.prems(1) have "call_setStates fuel body vs (r1, log1) = Some (x, r', log')"
        by simp
      from Cons.IH [OF this 1(2)] 1(1) show ?thesis by simp
    next
      case (Some err)
      with \<open>call_setState fuel body v (r, log) = Some y\<close> y Cons.prems(1) 1 show ?thesis by simp
    qed
  qed
qed


lemma call_setStates_returns:
  "quiet body \<Longrightarrow>
     \<exists>n. \<forall>fuel\<ge>n. \<exists>r' log'. call_setStates fuel body vs (r, log) = Some (None, r', log')"
proof (induction vs arbitrary: r log)
  case Nil
  then show ?case by simp
next
  case (Cons v vs)
  let ?r1 = "fold perform (commands body (snd (setState v r))) (r\<lparr>state := v\<rparr>)"
  let ?log1 = "log @ map (\<lambda>l. (l, v, state r, v)) (eventEmitter r)"
  let ?n1 = "Suc (cost body (snd (setState v r)))"
  from Cons.IH [OF Cons.prems, of ?r1 ?log1] obtain n2 where n2:
    "\<forall>fuel\<ge>n2. \<exists>r' log'. call_setStates fuel body vs (?r1, ?log1) = Some (None, r', log')"
    by blast
  show ?case
  proof (rule exI [of _ "max ?n1 n2"], intro allI impI)
    fix fuel assume f: "max ?n1 n2 \<le> fuel"
    then have "call_setState fuel body v (r, log) = Some (None, ?r1, ?log1)"
      using Cons.prems by (intro call_setState_quiet) simp_all
    moreover from f n2 obtain r' log' where
      "call_setStates fuel body vs (?r1, ?log1) = Some (None, r', log')"
      by (meson max.boundedE)
    ultimately show "\<exists>r' log'. call_setStates fuel body (v # vs) (r, log) = Some (None, r', log')"
      by simp
  qed
qed


text \<open>
  C6, as the code has it. The function returned by \<^verbatim>\<open>onChange(listener)\<close> calls
  \<^verbatim>\<open>off\<close> with the listener function, so it finds a registration by the function and
  not by the call of \<^verbatim>\<open>onChange\<close> that made it, each time it is called. When the
  listener function has exactly one registration at a call of the returned function,
  the call removes this registration and keeps every other one, in order, and the state.
  A call made while the listener function has no registration changes nothing (and
  \<^verbatim>\<open>off\<close> does not raise). From a moment when the listener function has no registration,
  and as long as no listener subscribes it again, no \<^verbatim>\<open>setState\<close> that starts then or
  later calls it, whatever the other listeners do, and it stays unregistered; this holds
  of every sequence of \<^verbatim>\<open>setState\<close> calls that has ended, also by a throw, and with
  listeners that neither throw nor call \<^verbatim>\<open>setState\<close> every such sequence does end.
\<close>

theorem unsubscribe_registered_once:
  "(count_list (eventEmitter r) l = 1 \<longrightarrow>
      eventEmitter (fst (onChange l q) r) = filter (\<lambda>x. x \<noteq> l) (eventEmitter r)
      \<and> state (fst (onChange l q) r) = state r
      \<and> l \<notin> set (eventEmitter (fst (onChange l q) r)))
   \<and> (l \<notin> set (eventEmitter r) \<longrightarrow> fst (onChange l q) r = r)
   \<and> (l \<notin> set (eventEmitter r) \<and> (\<forall>k new old. OnChange l \<notin> set (body k new old))
        \<and> call_setStates fuel body vs (r, log) = Some (x, r', log') \<longrightarrow>
      observed l log' = observed l log \<and> l \<notin> set (eventEmitter r'))
   \<and> (l \<notin> set (eventEmitter r) \<and> quiet body \<and> (\<forall>k new old. OnChange l \<notin> set (body k new old)) \<longrightarrow>
        (\<exists>n. \<forall>fuel\<ge>n. \<exists>r1 log1.
           call_setStates fuel body vs (r, log) = Some (None, r1, log1)
           \<and> observed l log1 = observed l log \<and> l \<notin> set (eventEmitter r1)))"
proof -
  have 1: "count_list (eventEmitter r) l = 1 \<longrightarrow>
      eventEmitter (fst (onChange l q) r) = filter (\<lambda>x. x \<noteq> l) (eventEmitter r)
      \<and> state (fst (onChange l q) r) = state r
      \<and> l \<notin> set (eventEmitter (fst (onChange l q) r))"
    by (simp add: onChange_def off_single)
  have 2: "l \<notin> set (eventEmitter r) \<longrightarrow> fst (onChange l q) r = r"
    by (simp add: onChange_def off_absent)
  have 3: "l \<notin> set (eventEmitter r) \<and> (\<forall>k new old. OnChange l \<notin> set (body k new old))
        \<and> call_setStates fuel body vs (r, log) = Some (x, r', log') \<longrightarrow>
      observed l log' = observed l log \<and> l \<notin> set (eventEmitter r')"
    using call_setStates_absent [of l body fuel vs r log x r' log'] by blast
  have 4: "(l \<notin> set (eventEmitter r) \<and> quiet body \<and> (\<forall>k new old. OnChange l \<notin> set (body k new old)) \<longrightarrow>
        (\<exists>n. \<forall>fuel\<ge>n. \<exists>r1 log1.
           call_setStates fuel body vs (r, log) = Some (None, r1, log1)
           \<and> observed l log1 = observed l log \<and> l \<notin> set (eventEmitter r1)))"
  proof (intro impI, elim conjE)
    assume a: "l \<notin> set (eventEmitter r)" and q: "quiet body"
      and b: "\<forall>k new old. OnChange l \<notin> set (body k new old)"
    from call_setStates_returns [OF q, of vs r log] obtain n where n:
      "\<forall>fuel\<ge>n. \<exists>r1 log1. call_setStates fuel body vs (r, log) = Some (None, r1, log1)"
      by (elim exE)
    have "\<forall>fuel\<ge>n. \<exists>r1 log1.
           call_setStates fuel body vs (r, log) = Some (None, r1, log1)
           \<and> observed l log1 = observed l log \<and> l \<notin> set (eventEmitter r1)"
    proof (intro allI impI)
      fix fuel assume "n \<le> fuel"
      with n obtain r1 log1 where e: "call_setStates fuel body vs (r, log) = Some (None, r1, log1)"
        by blast
      from call_setStates_absent [OF b e a] e
      show "\<exists>r1 log1.
           call_setStates fuel body vs (r, log) = Some (None, r1, log1)
           \<and> observed l log1 = observed l log \<and> l \<notin> set (eventEmitter r1)"
        by blast
    qed
    then show "\<exists>n. \<forall>fuel\<ge>n. \<exists>r1 log1.
           call_setStates fuel body vs (r, log) = Some (None, r1, log1)
           \<and> observed l log1 = observed l log \<and> l \<notin> set (eventEmitter r1)"
      by (rule exI)
  qed
  from 1 2 3 4 show ?thesis by (intro conjI)
qed

theorem unsubscribe_registered_once_witness:
  "count_list (eventEmitter two_listeners) 2 = 1
   \<and> eventEmitter (fst (onChange 2 (createRepository 0)) two_listeners) = [1]
   \<and> fst (onChange 2 (createRepository 0)) (fst (onChange 2 (createRepository 0)) two_listeners) =
       fst (onChange 2 (createRepository 0)) two_listeners
   \<and> (\<forall>k new old. OnChange 2 \<notin> set (reentrant k new old))
   \<and> call_setStates 10 reentrant [5, 7] (fst (onChange 2 (createRepository 0)) two_listeners, []) =
       Some (None, \<lparr>state = 7, eventEmitter = [1]\<rparr>, [(1, 5, 0, 5), (1, 9, 5, 9), (1, 7, 9, 7)])
   \<and> observed (2::nat) ([(1, 5, 0, 5), (1, 9, 5, 9), (1, 7, 9, 7)] :: (nat, nat) heard) = []
   \<and> quiet inert
   \<and> (\<exists>n. \<forall>fuel\<ge>n. \<exists>r1 log1.
         call_setStates fuel inert [5, 7] (fst (onChange 2 (createRepository 0)) two_listeners, []) =
           Some (None, r1, log1)
         \<and> observed 2 log1 = [] \<and> 2 \<notin> set (eventEmitter r1))"
proof -
  let ?u = "fst (onChange 2 (createRepository (0::nat)) :: (_ \<Rightarrow> (nat, nat) Repository) \<times> _)"
  let ?log = "[(1, 5, 0, 5), (1, 9, 5, 9), (1, 7, 9, 7)] :: (nat, nat) heard"
  let ?end = "\<lparr>state = 7, eventEmitter = [1]\<rparr> :: (nat, nat) Repository"
  have c: "count_list (eventEmitter two_listeners) 2 = 1" by code_simp
  have b: "\<forall>k new old. OnChange 2 \<notin> set (reentrant k new old)"
    by (simp add: reentrant_def)
  have e: "call_setStates 10 reentrant [5, 7] (?u two_listeners, []) = Some (None, ?end, ?log)"
    by code_simp
  note t = unsubscribe_registered_once [where r = two_listeners and l = 2
      and q = "createRepository 0"]
  note s = unsubscribe_registered_once [where r = "?u two_listeners" and l = 2
      and q = "createRepository 0" and body = reentrant and fuel = 10 and vs = "[5, 7]"
      and log = "[]" and x = None and r' = ?end and log' = ?log]
  note 1 = t [THEN conjunct1, THEN mp, OF c]
  have f: "filter (\<lambda>x. x \<noteq> 2) (eventEmitter two_listeners) = [1]" by code_simp
  from 1 f have 2: "eventEmitter (?u two_listeners) = [1]" by simp
  from 1 have a: "2 \<notin> set (eventEmitter (?u two_listeners))" by simp
  note 3 = s [THEN conjunct2, THEN conjunct1, THEN mp, OF a]
  note 4 = s [THEN conjunct2, THEN conjunct2, THEN conjunct1, THEN mp,
      OF conjI [OF a conjI [OF b e]], THEN conjunct1]
  from 4 have 5: "observed 2 ?log = []" by (simp add: observed_def)
  have q: "quiet inert" by (simp add: quiet_def inert_def)
  have b': "\<forall>k new old. OnChange 2 \<notin> set (inert k new old)"
    by (simp add: inert_def)
  note i = unsubscribe_registered_once [where r = "?u two_listeners" and l = 2
      and q = "createRepository 0" and body = inert and vs = "[5, 7]" and log = "[]"]
  note 6 = i [THEN conjunct2, THEN conjunct2, THEN conjunct2, THEN mp,
      OF conjI [OF a conjI [OF q b']]]
  have 7: "\<exists>n. \<forall>fuel\<ge>n. \<exists>r1 log1.
         call_setStates fuel inert [5, 7] (?u two_listeners, []) = Some (None, r1, log1)
         \<and> observed 2 log1 = [] \<and> 2 \<notin> set (eventEmitter r1)"
    using 6 by (simp add: observed_def)
  from c 2 3 b e 5 q 7 show ?thesis by (intro conjI)
qed

text \<open>
  C6, as the claim states it, fails in three ways. For a listener function registered
  twice, the first call of the function returned by the first registration leaves one
  registration, so the listener is still notified, and the second call of the same
  function is not a no-op: it removes the other registration. When a listener is
  registered, unsubscribed and registered again, a second call of the function that the
  first registration returned removes the new registration. And when listener 1 calls
  the unsubscribe function of listener 2 during an emission, listener 2 is still called
  in that emission, after the call that removed it.
\<close>

theorem unsubscribe_twice_counterexample:
  "eventEmitter registered_twice = [1, 1]
   \<and> eventEmitter (first_unsubscribe registered_twice) = [1]
   \<and> eventEmitter (first_unsubscribe (first_unsubscribe registered_twice)) = []
   \<and> call_setState 10 inert 5 (first_unsubscribe registered_twice, []) =
       Some (None, \<lparr>state = 5, eventEmitter = [1]\<rparr>, [(1, 5, 0, 5)])
   \<and> eventEmitter (snd (onChange 1 (first_unsubscribe (snd (onChange 1 (createRepository 0)))))) = [1]
   \<and> eventEmitter (first_unsubscribe
         (snd (onChange 1 (first_unsubscribe (snd (onChange 1 (createRepository 0))))))) = []
   \<and> call_setState 10 unsubscribing 5 (two_listeners, []) =
       Some (None, \<lparr>state = 5, eventEmitter = [1]\<rparr>, [(1, 5, 0, 5), (2, 5, 0, 5)])"
  by code_simp


section \<open>Store binding\<close>

lemma storifyActions_lookup:
  "getProp (storifyActions actions) name = Some impl \<Longrightarrow>
     (name, storified_action impl) \<in> set actions"
  by (auto simp: storifyActions_def Let_def getProp_fromEntries storifyAction_def
      dest!: map_of_SomeD)

lemma storifyAction_settle_quiet:
  "quiet body \<Longrightarrow> promise (state r) = Fulfilled result \<Longrightarrow>
     Suc (cost body (snd (setState result r))) \<le> fuel \<Longrightarrow>
     storifyAction_settle fuel body promise (r, log) =
       Some (Fulfilled (),
             fold perform (commands body (snd (setState result r))) (r\<lparr>state := result\<rparr>),
             log @ map (\<lambda>k. (k, result, state r, result)) (eventEmitter r))"
  by (simp add: storifyAction_settle_def call_setState_quiet)

text \<open>
  C4, as the code has it. Every bound action of the store that \<^verbatim>\<open>createStore\<close> returns
  closes over an action of the object passed in, under the same name. The first part of
  a bound call calls that action and changes nothing: when the action throws, the bound
  promise is rejected with what it threw, and otherwise the call waits for the promise
  of the action. When that promise is fulfilled with \<open>result\<close> and the listeners of
  the repository neither throw nor call \<^verbatim>\<open>setState\<close>, the second part returns, having
  made one call \<^verbatim>\<open>setState(result)\<close>: the state is \<open>result\<close>, every registration was
  notified once with \<open>result\<close> and the previous state, and the bound promise is
  fulfilled with no value. Whatever the listeners do, the second part makes this one call
  and no other: when the call returns, the bound promise is fulfilled with no value, and
  when it raises, the bound promise is rejected with what was thrown. When the promise of
  the action is rejected, no \<^verbatim>\<open>setState\<close> is made, the repository is as it was, no listener
  is called, and the bound promise is rejected with the same failure.
\<close>

theorem storifyAction_success_and_failure:
  "(getProp (store_actions (createStore repository actions)) name = Some impl \<longrightarrow>
      (name, storified_action impl) \<in> set actions
      \<and> store_repository (createStore repository actions) = repository)
   \<and> (storified_action impl args (state r) = Returns promise \<longrightarrow>
        storifyAction_call impl args r = Inr promise)
   \<and> (storified_action impl args (state r) = Throws error \<longrightarrow>
        storifyAction_call impl args r = Inl (Rejected error))
   \<and> (quiet body \<and> promise (state r) = Fulfilled result \<longrightarrow>
        (\<forall>fuel\<ge>Suc (cost body (snd (setState result r))).
           storifyAction_settle fuel body promise (r, log) =
             Some (Fulfilled (),
                   fold perform (commands body (snd (setState result r))) (r\<lparr>state := result\<rparr>),
                   log @ map (\<lambda>k. (k, result, state r, result)) (eventEmitter r)))
        \<and> state (fold perform (commands body (snd (setState result r))) (r\<lparr>state := result\<rparr>)) =
            result)
   \<and> (promise (state r) = Fulfilled result
        \<and> call_setState fuel body result (r, log) = Some (thrown, s') \<longrightarrow>
        storifyAction_settle fuel body promise (r, log) =
          Some (case thrown of None \<Rightarrow> Fulfilled () | Some error \<Rightarrow> Rejected error, s'))
   \<and> (promise (state r) = Rejected error \<longrightarrow>
        storifyAction_settle fuel body promise (r, log) = Some (Rejected error, r, log))"
proof -
  have 1: "getProp (store_actions (createStore repository actions)) name = Some impl \<longrightarrow>
      (name, storified_action impl) \<in> set actions
      \<and> store_repository (createStore repository actions) = repository"
    by (simp add: createStore_def storifyActions_lookup)
  have 2: "storified_action impl args (state r) = Returns promise \<longrightarrow>
        storifyAction_call impl args r = Inr promise"
    by (simp add: storifyAction_call_def)
  have 3: "storified_action impl args (state r) = Throws error \<longrightarrow>
        storifyAction_call impl args r = Inl (Rejected error)"
    by (simp add: storifyAction_call_def)
  have 4: "quiet body \<and> promise (state r) = Fulfilled result \<longrightarrow>
        (\<forall>fuel\<ge>Suc (cost body (snd (setState result r))).
           storifyAction_settle fuel body promise (r, log) =
             Some (Fulfilled (),
                   fold perform (commands body (snd (setState result r))) (r\<lparr>state := result\<rparr>),
                   log @ map (\<lambda>k. (k, result, state r, result)) (eventEmitter r)))
        \<and> state (fold perform (commands body (snd (setState result r))) (r\<lparr>state := result\<rparr>)) =
            result"
    by (simp add: storifyAction_settle_quiet state_fold_perform)
  have 5: "promise (state r) = Rejected error \<longrightarrow>
        storifyAction_settle fuel body promise (r, log) = Some (Rejected error, r, log)"
    by (simp add: storifyAction_settle_def)
  have 6: "(promise (state r) = Fulfilled result
        \<and> call_setState fuel body result (r, log) = Some (thrown, s') \<longrightarrow>
        storifyAction_settle fuel body promise (r, log) =
          Some (case thrown of None \<Rightarrow> Fulfilled () | Some error \<Rightarrow> Rejected error, s'))"
    by (cases thrown) (simp_all add: storifyAction_settle_def)
  from 1 2 3 4 6 5 show ?thesis by (intro conjI)
qed

theorem storifyAction_success_and_failure_witness:
  "getProp (store_actions (createStore two_listeners [(''five'', toFive)])) ''five'' =
     Some (storifyAction toFive)
   \<and> toFive () (state two_listeners) = Returns five
   \<and> storifyAction_call (storifyAction toFive) () two_listeners = Inr five
   \<and> quiet inert \<and> five (state two_listeners) = Fulfilled 5
   \<and> storifyAction_settle 3 inert five (two_listeners, []) =
       Some (Fulfilled (), \<lparr>state = 5, eventEmitter = [1, 2]\<rparr>, [(1, 5, 0, 5), (2, 5, 0, 5)])
   \<and> call_setState 10 reentrant 5 (two_listeners, []) =
       Some (None, \<lparr>state = 9, eventEmitter = [1, 2]\<rparr>,
             [(1, 5, 0, 5), (1, 9, 5, 9), (2, 9, 5, 9), (2, 5, 0, 9)])
   \<and> storifyAction_settle 10 reentrant five (two_listeners, []) =
       Some (Fulfilled (), \<lparr>state = 9, eventEmitter = [1, 2]\<rparr>,
             [(1, 5, 0, 5), (1, 9, 5, 9), (2, 9, 5, 9), (2, 5, 0, 9)])"
proof -
  let ?impl = "storifyAction toFive"
  note t = storifyAction_success_and_failure [where repository = two_listeners
      and actions = "[(''five'', toFive)]" and name = "''five''" and impl = ?impl
      and args = "()" and r = two_listeners and promise = five and body = inert
      and result = 5 and log = "[]"]
  have g: "getProp (store_actions (createStore two_listeners [(''five'', toFive)])) ''five'' =
     Some ?impl"
    by (simp add: createStore_def storifyActions_def fromEntries_def getProp_def Let_def)
  have a: "storified_action ?impl () (state two_listeners) = Returns five"
    by (simp add: storifyAction_def toFive_def)
  then have a': "toFive () (state two_listeners) = Returns five"
    by (simp add: storifyAction_def)
  have q: "quiet inert" by (simp add: quiet_def inert_def)
  have f: "five (state two_listeners) = Fulfilled 5" by (simp add: five_def)
  have k: "Suc (cost inert (snd (setState 5 two_listeners))) = 3" by code_simp
  have p: "fold perform (commands inert (snd (setState 5 two_listeners)))
             (two_listeners\<lparr>state := 5\<rparr>) = \<lparr>state = 5, eventEmitter = [1, 2]\<rparr>"
    by code_simp
  have e: "eventEmitter two_listeners = [1, 2]" "state two_listeners = 0" by code_simp+
  note 1 = t [THEN conjunct2, THEN conjunct1, THEN mp, OF a]
  note 2 = t [THEN conjunct2, THEN conjunct2, THEN conjunct2, THEN conjunct1, THEN mp,
      OF conjI [OF q f], THEN conjunct1, THEN spec, of 3, THEN mp]
  have 3: "storifyAction_settle 3 inert five (two_listeners, []) =
       Some (Fulfilled (), \<lparr>state = 5, eventEmitter = [1, 2]\<rparr>, [(1, 5, 0, 5), (2, 5, 0, 5)])"
    using 2 k p e by simp
  have c: "call_setState 10 reentrant 5 (two_listeners, []) =
       Some (None, \<lparr>state = 9, eventEmitter = [1, 2]\<rparr>,
             [(1, 5, 0, 5), (1, 9, 5, 9), (2, 9, 5, 9), (2, 5, 0, 9)])"
    by code_simp
  note n = storifyAction_success_and_failure [where r = two_listeners and promise = five
      and body = reentrant and result = 5 and log = "[]" and fuel = 10 and thrown = None
      and s' = "(\<lparr>state = 9, eventEmitter = [1, 2]\<rparr>,
                 [(1, 5, 0, 5), (1, 9, 5, 9), (2, 9, 5, 9), (2, 5, 0, 9)])"]
  note 4 = n [THEN conjunct2, THEN conjunct2, THEN conjunct2, THEN conjunct2, THEN conjunct1,
      THEN mp, OF conjI [OF f c]]
  have 5: "storifyAction_settle 10 reentrant five (two_listeners, []) =
       Some (Fulfilled (), \<lparr>state = 9, eventEmitter = [1, 2]\<rparr>,
             [(1, 5, 0, 5), (1, 9, 5, 9), (2, 9, 5, 9), (2, 5, 0, 9)])"
    using 4 by simp
  from g a' 1 q f 3 c 5 show ?thesis by (intro conjI)
qed

text \<open>
  C4, as the claim states it, fails when a listener of the repository throws. The call
  \<^verbatim>\<open>repository.setState(result)\<close> is inside the \<^verbatim>\<open>try\<close> of the bound action: the action
  has resolved to 5 and the state has been replaced by 5, but the bound promise is
  rejected with what listener 1 threw, and listener 2 is not notified.
\<close>

theorem throwing_listener_rejects_bound_call_counterexample:
  "getProp (store_actions (createStore two_listeners [(''five'', toFive)])) ''five'' =
     Some (storifyAction toFive)
   \<and> storifyAction_call (storifyAction toFive) () two_listeners = Inr five
   \<and> five (state two_listeners) = Fulfilled 5
   \<and> storifyAction_settle 10 throwing five (two_listeners, []) =
       Some (Rejected ''listener failed'', \<lparr>state = 5, eventEmitter = [1, 2]\<rparr>, [(1, 5, 0, 5)])"
proof -
  have 1: "getProp (store_actions (createStore two_listeners [(''five'', toFive)])) ''five'' =
     Some (storifyAction toFive)"
    by (simp add: createStore_def storifyActions_def fromEntries_def getProp_def Let_def)
  have 2: "storifyAction_call (storifyAction toFive) () two_listeners = Inr five"
    by (simp add: storifyAction_call_def storifyAction_def toFive_def)
  have 3: "five (state two_listeners) = Fulfilled 5" by (simp add: five_def)
  have 4: "storifyAction_settle 10 throwing five (two_listeners, []) =
       Some (Rejected ''listener failed'', \<lparr>state = 5, eventEmitter = [1, 2]\<rparr>, [(1, 5, 0, 5)])"
    by code_simp
  from 1 2 3 4 show ?thesis by (intro conjI)
qed


section \<open>Tracking wrapper\<close>

lemma wrapActions_lookup:
  "getProp (wrapActions actions f) name = Some c \<Longrightarrow>
     isSubscribed c \<and> wrapped_onChange c = f name \<and> (name, wrapped_action c) \<in> set actions"
  by (auto simp: wrapActions_def Let_def getProp_fromEntries wrapAction_def
      dest!: map_of_SomeD)

lemma wrapActions_keys: "set (keys (wrapActions actions f)) = set (keys actions)"
proof -
  have "set (keys (wrapActions actions f)) =
          fst ` set (map (\<lambda>(key, v). (key, wrapAction v (\<lambda>st. f key st))) actions)"
    by (simp add: wrapActions_def Let_def keys_fromEntries)
  also have "\<dots> = fst ` set actions"
    by (simp add: image_image split_def)
  finally show ?thesis by (simp add: keys_def)
qed


text \<open>
  C3, as the code has it. The wrapper that \<^verbatim>\<open>wrapActions\<close> stores under \<open>name\<close> wraps
  an action of the object passed in, under the same name, and reports to the listener
  \<open>onChange'\<close>. An invocation calls the listener with (\<open>name\<close>, pending) first: when the
  listener throws there, the call is rejected with what it threw, whatever the action
  would have done; when it returns, the action is invoked, and the call waits for the
  promise that the action returns. When that promise is fulfilled, the second part calls
  the listener with (\<open>name\<close>, resolved) and, the listener returning, the wrapped call is
  fulfilled with the response of the action. When the promise is rejected, the second
  part calls the listener with (\<open>name\<close>, rejected) and, the listener returning, the
  wrapped call is rejected with the same failure. An action that throws when it is
  invoked is treated in the same way as a rejection, after the pending event.
\<close>

theorem wrapped_action_phases:
  "getProp (wrapActions actions onChange') name = Some c \<Longrightarrow>
     (name, wrapped_action c) \<in> set actions
     \<and> (onChange' name pending w = (Some error, w1) \<longrightarrow>
          impl_call c args x w = (Inl (Rejected error), w1))
     \<and> (onChange' name pending w = (None, w1) \<and> wrapped_action c args x = Returns promise \<longrightarrow>
          impl_call c args x w = (Inr promise, w1))
     \<and> (promise x = Fulfilled response \<and> onChange' name resolved w = (None, w1) \<longrightarrow>
          impl_settle c promise x w = (Fulfilled response, w1))
     \<and> (promise x = Rejected error \<and> onChange' name rejected w = (None, w1) \<longrightarrow>
          impl_settle c promise x w = (Rejected error, w1))
     \<and> (onChange' name pending w = (None, w1) \<and> wrapped_action c args x = Throws error
          \<and> onChange' name rejected w1 = (None, w2) \<longrightarrow>
          impl_call c args x w = (Inl (Rejected error), w2))"
proof -
  assume "getProp (wrapActions actions onChange') name = Some c"
  then have c: "isSubscribed c \<and> wrapped_onChange c = onChange' name
      \<and> (name, wrapped_action c) \<in> set actions"
    by (rule wrapActions_lookup)
  then have e: "emitChange c st w' = onChange' name st w'" for st w'
    by (simp add: emitChange_def)
  from c show ?thesis
    by (simp add: impl_call_def impl_settle_def impl_catch_def e)
qed

theorem wrapped_action_phases_witness:
  "getProp (wrapActions counterActions logPhase) ''increment'' =
     Some (wrapAction counter_increment (logPhase ''increment''))
   \<and> logPhase ''increment'' pending [] = (None, [(''increment'', pending)])
   \<and> counter_increment 1 (0, 0) = Returns (increment_promise 1)
   \<and> impl_call (wrapAction counter_increment (logPhase ''increment'')) 1 (0, 0) [] =
       (Inr (increment_promise 1), [(''increment'', pending)])
   \<and> increment_promise 1 (4, 7) = Fulfilled (5, 8)
   \<and> logPhase ''increment'' resolved [(''increment'', pending)] =
       (None, [(''increment'', pending), (''increment'', resolved)])
   \<and> impl_settle (wrapAction counter_increment (logPhase ''increment''))
         (increment_promise 1) (4, 7) [(''increment'', pending)] =
       (Fulfilled (5, 8), [(''increment'', pending), (''increment'', resolved)])"
proof -
  let ?c = "wrapAction counter_increment (logPhase ''increment'')"
  have g: "getProp (wrapActions counterActions logPhase) ''increment'' = Some ?c"
    by (simp add: wrapActions_def counterActions_def fromEntries_def getProp_def Let_def)
  have p: "logPhase ''increment'' pending [] = (None, [(''increment'', pending)])"
    by (simp add: logPhase_def)
  have a: "counter_increment 1 (0, 0) = Returns (increment_promise 1)"
    by (simp add: counter_increment_def)
  then have a': "wrapped_action ?c 1 (0, 0) = Returns (increment_promise 1)"
    by (simp add: wrapAction_def)
  have f: "increment_promise 1 (4, 7) = Fulfilled (5, 8)"
    by (simp add: increment_promise_def)
  have r: "logPhase ''increment'' resolved [(''increment'', pending)] =
       (None, [(''increment'', pending), (''increment'', resolved)])"
    by (simp add: logPhase_def)
  note t = wrapped_action_phases [OF g, where w = "[]" and ?w1.0 = "[(''increment'', pending)]"
      and args = 1 and x = "(0, 0)" and promise = "increment_promise 1"]
  note s = wrapped_action_phases [OF g, where w = "[(''increment'', pending)]"
      and ?w1.0 = "[(''increment'', pending), (''increment'', resolved)]"
      and x = "(4, 7)" and promise = "increment_promise 1" and response = "(5, 8)"]
  note 1 = t [THEN conjunct2, THEN conjunct2, THEN conjunct1, THEN mp, OF conjI [OF p a']]
  note 2 = s [THEN conjunct2, THEN conjunct2, THEN conjunct2, THEN conjunct1, THEN mp,
      OF conjI [OF f r]]
  from g p a 1 f r 2 show ?thesis by (intro conjI)
qed

text \<open>
  C3, as the claim states it, fails when the listener throws. The resolved event is
  emitted inside the \<^verbatim>\<open>try\<close>: the action has resolved to (1, 1), the listener is called
  with resolved and throws, the \<^verbatim>\<open>catch\<close> calls it with rejected as well, and the
  wrapped call is rejected with what the listener threw instead of returning (1, 1).
\<close>

theorem throwing_callback_counterexample:
  "getProp (wrapActions counterActions logPhase_failing) ''increment'' =
     Some (wrapAction counter_increment (logPhase_failing ''increment''))
   \<and> impl_call (wrapAction counter_increment (logPhase_failing ''increment'')) 1 (0, 0) [] =
       (Inr (increment_promise 1), [(''increment'', pending)])
   \<and> increment_promise 1 (0, 0) = Fulfilled (1, 1)
   \<and> impl_settle (wrapAction counter_increment (logPhase_failing ''increment''))
         (increment_promise 1) (0, 0) [(''increment'', pending)] =
       (Rejected ''callback failed'',
        [(''increment'', pending), (''increment'', resolved), (''increment'', rejected)])"
proof -
  have 1: "getProp (wrapActions counterActions logPhase_failing) ''increment'' =
     Some (wrapAction counter_increment (logPhase_failing ''increment''))"
    by (simp add: wrapActions_def counterActions_def fromEntries_def getProp_def Let_def)
  have 2: "impl_call (wrapAction counter_increment (logPhase_failing ''increment'')) 1 (0, 0) [] =
       (Inr (increment_promise 1), [(''increment'', pending)])"
    by (simp add: impl_call_def emitChange_def wrapAction_def logPhase_failing_def
        counter_increment_def)
  have 3: "increment_promise 1 (0, 0) = Fulfilled (1, 1)"
    by (simp add: increment_promise_def)
  have 4: "impl_settle (wrapAction counter_increment (logPhase_failing ''increment''))
         (increment_promise 1) (0, 0) [(''increment'', pending)] =
       (Rejected ''callback failed'',
        [(''increment'', pending), (''increment'', resolved), (''increment'', rejected)])"
    by (simp add: impl_settle_def impl_catch_def emitChange_def wrapAction_def
        logPhase_failing_def increment_promise_def)
  from 1 2 3 4 show ?thesis by (intro conjI)
qed


section \<open>Action tracker\<close>

text \<open>
  C10. The object behind \<^verbatim>\<open>initialState\<close> has exactly the keys of the actions passed to
  \<^verbatim>\<open>trackActions\<close>, each with the counter 0, and no other property.
\<close>

theorem trackActions_initialState:
  "(case trackActions actions onChange' of (wrapped, initialState, t) \<Rightarrow>
      set (keys (heap t ! initialState)) = set (keys actions)
      \<and> getProp (heap t ! initialState) name =
          (if name \<in> set (keys actions) then Some (Num 0) else None)
      \<and> promiseState t = initialState \<and> delivered t = [])"
  by (simp add: trackActions_def Let_def keys_fromEntries getProp_fromEntries
      map_of_rev_const image_image)

lemma heap_handleChange_new:
  "heap (handleChange name st t) ! length (heap t) =
     (case st of pending \<Rightarrow> increment name (heap t ! promiseState t)
               | rejected \<Rightarrow> decrement name (heap t ! promiseState t)
               | resolved \<Rightarrow> decrement name (heap t ! promiseState t))"
  by (cases st) (simp_all add: handleChange_def Let_def nth_append)

lemma promiseState_handleChange: "promiseState (handleChange name st t) = length (heap t)"
  by (simp add: handleChange_def Let_def)

lemma counter_handleChange:
  "counter (handleChange name st t) k =
     (if k = name
      then Some (add (toNumber (counter t name)) (case st of pending \<Rightarrow> 1 | rejected \<Rightarrow> - 1 | resolved \<Rightarrow> - 1))
      else counter t k)"
  by (cases st)
     (simp_all add: counter_def promiseState_handleChange heap_handleChange_new
       increment_def decrement_def getProp_setProp)


text \<open>
  C9. A phase transition for the name \<open>name\<close>, from any state of the tracker, leaves
  the counter of every other name as it was: the new object of counters differs from the
  previous one at \<open>name\<close> only.
\<close>

theorem handleChange_frame:
  "promiseState t < length (heap t) \<Longrightarrow> other \<noteq> name \<Longrightarrow>
     counter (handleChange name st t) other = counter t other"
  by (simp add: counter_handleChange)

theorem handleChange_frame_witness:
  "promiseState (snd (snd (trackActions counterActions (\<lambda>h. None :: string option)))) <
     length (heap (snd (snd (trackActions counterActions (\<lambda>h. None :: string option)))))
   \<and> ''reset'' \<noteq> ''increment''
   \<and> counter (handleChange ''increment'' pending
         (snd (snd (trackActions counterActions (\<lambda>h. None :: string option))))) ''reset''
       = Some (Num 0)"
proof -
  let ?t = "snd (snd (trackActions counterActions (\<lambda>h. None :: string option)))"
  have v: "promiseState ?t < length (heap ?t)"
    by (simp add: trackActions_def Let_def)
  have n: "''reset'' \<noteq> ''increment''" by simp
  have "counter ?t ''reset'' = Some (Num 0)"
    by (simp add: trackActions_def counterActions_def counter_def fromEntries_def keys_def
        getProp_def Let_def)
  with handleChange_frame [OF v n, of pending] v n
  show ?thesis by simp
qed

lemma init_wrappedActions:
  "wrappedActions (init actions onChange') = wrapActions actions (handleChange_raising onChange')"
  by (simp add: init_def trackActions_def Let_def)

lemma init_inflight: "inflight (init actions onChange') = []"
  by (simp add: init_def trackActions_def Let_def)

lemma init_tracker:
  "tracker (init actions onChange') =
     \<lparr>heap = [fromEntries (map (\<lambda>key. (key, Num 0)) (keys actions))],
      promiseState = 0, delivered = []\<rparr>"
  by (simp add: init_def trackActions_def Let_def)

lemma step_wrappedActions: "wrappedActions (step ev s) = wrappedActions s"
  by (cases ev) (auto split: option.splits prod.splits sum.splits)

lemma run_wrappedActions: "wrappedActions (run evs s) = wrappedActions s"
  unfolding run_def by (induction evs arbitrary: s) (simp_all add: step_wrappedActions)

lemma emitChange_subscribed:
  "isSubscribed c \<Longrightarrow> wrapped_onChange c = f \<Longrightarrow> emitChange c st w = f st w"
  by (simp add: emitChange_def)

lemma handleChange_raising_silent:
  "handleChange_raising (\<lambda>h. None) name st t = (None, handleChange name st t)"
  by (simp add: handleChange_raising_def Let_def)

lemma snd_handleChange_raising:
  "snd (handleChange_raising onChange' name st t) = handleChange name st t"
  by (simp add: handleChange_raising_def Let_def)

lemma impl_call_silent:
  "isSubscribed c \<Longrightarrow> wrapped_onChange c = handleChange_raising (\<lambda>h. None) name \<Longrightarrow>
     impl_call c args x t =
       (case wrapped_action c args x of
          Returns promise \<Rightarrow> (Inr promise, handleChange name pending t)
        | Throws error \<Rightarrow>
            (Inl (Rejected error), handleChange name rejected (handleChange name pending t)))"
  by (simp add: impl_call_def impl_catch_def emitChange_subscribed handleChange_raising_silent
      split: called.splits)

lemma impl_settle_silent:
  "isSubscribed c \<Longrightarrow> wrapped_onChange c = handleChange_raising (\<lambda>h. None) name \<Longrightarrow>
     impl_settle c promise x t =
       (case promise x of
          Fulfilled response \<Rightarrow> (Fulfilled response, handleChange name resolved t)
        | Rejected error \<Rightarrow> (Rejected error, handleChange name rejected t))"
  by (simp add: impl_settle_def impl_catch_def emitChange_subscribed handleChange_raising_silent
      split: outcome.splits)

lemma count_list_remove_nth:
  "i < length xs \<Longrightarrow>
     int (count_list xs k) =
       int (count_list (take i xs @ drop (Suc i) xs) k) + (if xs ! i = k then 1 else 0)"
proof -
  assume "i < length xs"
  then have "xs = take i xs @ xs ! i # drop (Suc i) xs" by (rule id_take_nth_drop)
  then have "count_list xs k = count_list (take i xs @ xs ! i # drop (Suc i) xs) k" by simp
  then show ?thesis by simp
qed

lemma count_list_map_fst_remove_nth:
  "i < length xs \<Longrightarrow>
     int (count_list (map fst xs) k) =
       int (count_list (map fst (take i xs @ drop (Suc i) xs)) k)
       + (if fst (xs ! i) = k then 1 else 0)"
proof -
  assume i: "i < length xs"
  then have "i < length (map fst xs)" by simp
  from count_list_remove_nth [OF this, of k] i show ?thesis
    by (simp add: take_map drop_map)
qed

lemma tracked_step: "tracked s \<Longrightarrow> tracked (step ev s)"
proof (cases ev)
  case (Invoke name args x)
  assume t: "tracked s"
  show ?thesis
  proof (cases "getProp (wrappedActions s) name")
    case None
    with Invoke t show ?thesis by simp
  next
    case (Some c)
    with t have c: "isSubscribed c" "wrapped_onChange c = handleChange_raising (\<lambda>h. None) name"
      by (auto simp: tracked_def)
    show ?thesis
    proof (cases "wrapped_action c args x")
      case (Returns promise)
      with Invoke Some t show ?thesis
        by (auto simp: tracked_def impl_call_silent [OF c] counter_handleChange toNumber_def)
    next
      case (Throws error)
      with Invoke Some t show ?thesis
        by (auto simp: tracked_def impl_call_silent [OF c] counter_handleChange toNumber_def)
    qed
  qed
next
  case (Settle i x)
  assume t: "tracked s"
  show ?thesis
  proof (cases "i < length (inflight s)")
    case False
    with Settle t show ?thesis by simp
  next
    case True
    note i = this
    obtain name promise where e: "inflight s ! i = (name, promise)"
      by (cases "inflight s ! i") auto
    show ?thesis
    proof (cases "getProp (wrappedActions s) name")
      case None
      with Settle t e show ?thesis by simp
    next
      case (Some c)
      with t have c: "isSubscribed c" "wrapped_onChange c = handleChange_raising (\<lambda>h. None) name"
        by (auto simp: tracked_def)
      have n: "\<And>k. int (count_list (map fst (inflight s)) k) =
                 int (count_list (map fst (take i (inflight s) @ drop (Suc i) (inflight s))) k)
                 + (if name = k then 1 else 0)"
        using count_list_map_fst_remove_nth [OF i] e by simp
      show ?thesis
      proof (cases "promise x")
        case (Fulfilled response)
        with Settle Some t i e show ?thesis
          by (auto simp: tracked_def impl_settle_silent [OF c] counter_handleChange toNumber_def n)
      next
        case (Rejected error)
        with Settle Some t i e show ?thesis
          by (auto simp: tracked_def impl_settle_silent [OF c] counter_handleChange toNumber_def n)
      qed
    qed
  qed
qed

lemma tracked_run: "tracked s \<Longrightarrow> tracked (run evs s)"
  unfolding run_def by (induction evs arbitrary: s) (simp_all add: tracked_step)

lemma tracked_init: "tracked (init actions (\<lambda>h. None))"
  by (auto simp: tracked_def init_wrappedActions init_inflight init_tracker counter_def
      getProp_fromEntries map_of_rev_const getProp_None wrapActions_keys
      dest: wrapActions_lookup)


text \<open>
  C2, as the code has it. With a callback that does not throw, along every run from
  \<^verbatim>\<open>trackActions(actions, onChange)\<close> the counter of a name of \<open>actions\<close> is the number
  of invocations of that name that are in flight; so it is 0 whenever all invocations
  have settled. A pending event adds 1 to the counter of its name, a resolved or a
  rejected event takes 1 off, also at 0.
\<close>

theorem tracker_counter:
  "name \<in> set (keys actions) \<Longrightarrow>
     counter (tracker (run events (init actions (\<lambda>h. None)))) name =
       Some (Num (int (count_list (map fst (inflight (run events (init actions (\<lambda>h. None))))) name)))
     \<and> (inflight (run events (init actions (\<lambda>h. None))) = [] \<longrightarrow>
          counter (tracker (run events (init actions (\<lambda>h. None)))) name = Some (Num 0))
     \<and> (promiseState t < length (heap t) \<and> counter t name = Some (Num n) \<longrightarrow>
          counter (handleChange name pending t) name = Some (Num (n + 1))
          \<and> counter (handleChange name resolved t) name = Some (Num (n - 1))
          \<and> counter (handleChange name rejected t) name = Some (Num (n - 1)))"
proof -
  assume k: "name \<in> set (keys actions)"
  let ?s = "run events (init actions (\<lambda>h. None))"
  have "tracked ?s" by (simp add: tracked_run tracked_init)
  moreover have "getProp (wrappedActions ?s) name \<noteq> None"
    using k by (simp add: run_wrappedActions init_wrappedActions getProp_None wrapActions_keys)
  ultimately have c: "counter (tracker ?s) name =
      Some (Num (int (count_list (map fst (inflight ?s)) name)))"
    by (simp add: tracked_def)
  then have "inflight ?s = [] \<longrightarrow> counter (tracker ?s) name = Some (Num 0)"
    by simp
  with c show ?thesis
    by (simp add: counter_handleChange toNumber_def)
qed

theorem tracker_counter_witness:
  "''increment'' \<in> set (keys counterActions)
   \<and> counter (tracker (run clicks (init counterActions (\<lambda>h. None :: string option)))) ''increment'' =
       Some (Num 2)
   \<and> counter (tracker (run (clicks @ [Settle 0 (4, 7), Settle 0 (4, 7)])
         (init counterActions (\<lambda>h. None :: string option)))) ''increment'' = Some (Num 0)
   \<and> counter (handleChange ''increment'' resolved
         (tracker (init counterActions (\<lambda>h. None :: string option)))) ''increment'' =
       Some (Num (- 1))"
proof -
  let ?i = "init counterActions (\<lambda>h. None :: string option)"
  let ?all = "clicks @ [Settle 0 (4, 7), Settle 0 (4, 7)]"
  let ?t = "tracker ?i"
  have k: "''increment'' \<in> set (keys counterActions)"
    by (simp add: keys_def counterActions_def)
  have i: "map fst (inflight (run clicks ?i)) = [''increment'', ''increment'']"
    by code_simp
  have j: "map fst (inflight (run ?all ?i)) = []"
    by code_simp
  have z: "promiseState ?t < length (heap ?t) \<and> counter ?t ''increment'' = Some (Num 0)"
    by code_simp
  note a = tracker_counter [where name = "''increment''" and actions = counterActions
      and events = clicks and t = ?t and n = 0, OF k]
  note b = tracker_counter [where name = "''increment''" and actions = counterActions
      and events = ?all and t = ?t and n = 0, OF k]
  from a i have 1: "counter (tracker (run clicks ?i)) ''increment'' = Some (Num 2)"
    by simp
  from b j have 2: "counter (tracker (run ?all ?i)) ''increment'' = Some (Num 0)"
    by simp
  from a z have 3: "counter (handleChange ''increment'' resolved ?t) ''increment'' = Some (Num (- 1))"
    by simp
  from k 1 2 3 show ?thesis by (intro conjI)
qed

text \<open>
  C2, as the claim states it, fails when the callback throws. With a callback that
  throws on the snapshot in which \<^verbatim>\<open>increment\<close> is back at 0, one invocation that
  resolves is counted down twice, by the resolved event and by the rejected event of the
  \<^verbatim>\<open>catch\<close>: nothing is in flight and the counter is -1. With a callback that throws on
  the snapshot of the pending event, the call is rejected before the action is invoked:
  nothing is in flight and the counter stays at 1.
\<close>

theorem throwing_callback_counter_counterexample:
  "map fst (inflight (run click (init counterActions (failsAt 0)))) = []
   \<and> counter (tracker (run click (init counterActions (failsAt 0)))) ''increment'' =
       Some (Num (- 1))
   \<and> map fst (inflight (run [Invoke ''increment'' 1 (0, 0)] (init counterActions (failsAt 1)))) = []
   \<and> counter (tracker (run [Invoke ''increment'' 1 (0, 0)] (init counterActions (failsAt 1))))
         ''increment'' = Some (Num 1)"
  by code_simp



lemma heap_handleChange_old:
  "a < length (heap t) \<Longrightarrow> heap (handleChange name st t) ! a = heap t ! a"
  by (cases st) (simp_all add: handleChange_def Let_def nth_append)

lemma length_heap_handleChange: "length (heap (handleChange name st t)) = Suc (length (heap t))"
  by (cases st) (simp_all add: handleChange_def Let_def)

lemma delivered_handleChange:
  "delivered (handleChange name st t) =
     delivered t @ [(length (heap t), heap (handleChange name st t) ! length (heap t))]"
  by (cases st) (simp_all add: handleChange_def Let_def)

lemma keys_increment: "set (keys (increment name obj)) = insert name (set (keys obj))"
  by (simp add: increment_def keys_setProp)

lemma keys_decrement: "set (keys (decrement name obj)) = insert name (set (keys obj))"
  by (simp add: decrement_def keys_setProp)

lemma keys_handleChange_new:
  "set (keys (heap (handleChange name st t) ! length (heap t))) =
     insert name (set (keys (heap t ! promiseState t)))"
  by (cases st) (simp_all add: heap_handleChange_new keys_increment keys_decrement)

lemma snapshots_handleChange:
  assumes "snapshots obj0 t" and "name \<in> set (keys obj0)"
  shows "snapshots obj0 (handleChange name st t)"
proof -
  let ?t = "handleChange name st t"
  from assms(1) have h: "heap t \<noteq> []" "heap t ! 0 = obj0" "promiseState t < length (heap t)"
    "set (keys (heap t ! promiseState t)) = set (keys obj0)" "distinct (map fst (delivered t))"
    and d: "\<And>a obj. (a, obj) \<in> set (delivered t) \<Longrightarrow>
              0 < a \<and> a < length (heap t) \<and> heap t ! a = obj \<and> set (keys obj) = set (keys obj0)"
    by (auto simp: snapshots_def)
  have new: "set (keys (heap ?t ! length (heap t))) = set (keys obj0)"
    using h(4) assms(2) by (auto simp: keys_handleChange_new)
  have 1: "heap ?t \<noteq> []"
    using length_heap_handleChange [of name st t] by auto
  have 2: "heap ?t ! 0 = obj0"
    using h(1,2) by (simp add: heap_handleChange_old)
  have 3: "promiseState ?t < length (heap ?t)"
    by (simp add: promiseState_handleChange length_heap_handleChange)
  have 4: "set (keys (heap ?t ! promiseState ?t)) = set (keys obj0)"
    using new by (simp add: promiseState_handleChange)
  have fresh: "length (heap t) \<notin> fst ` set (delivered t)"
    using d by fastforce
  have 5: "distinct (map fst (delivered ?t))"
    using h(5) fresh by (simp add: delivered_handleChange)
  have 6: "\<forall>(a, obj) \<in> set (delivered ?t).
             0 < a \<and> a < length (heap ?t) \<and> heap ?t ! a = obj \<and> set (keys obj) = set (keys obj0)"
  proof -
    have old: "0 < a \<and> a < length (heap ?t) \<and> heap ?t ! a = obj
                 \<and> set (keys obj) = set (keys obj0)"
      if "(a, obj) \<in> set (delivered t)" for a obj
      using d [OF that] by (simp add: length_heap_handleChange heap_handleChange_old)
    have "0 < length (heap t)" using h(1) by simp
    with old new show ?thesis
      by (auto simp: delivered_handleChange length_heap_handleChange)
  qed
  from 1 2 3 4 5 6 show ?thesis by (simp add: snapshots_def)
qed

lemma snapshots_emitChange:
  "snapshots obj0 t \<Longrightarrow> name \<in> set (keys obj0) \<Longrightarrow>
     wrapped_onChange c = handleChange_raising onChange' name \<Longrightarrow>
     snapshots obj0 (snd (emitChange c st t))"
  by (simp add: emitChange_def snd_handleChange_raising snapshots_handleChange)

lemma snapshots_impl_catch:
  "snapshots obj0 t \<Longrightarrow> name \<in> set (keys obj0) \<Longrightarrow>
     wrapped_onChange c = handleChange_raising onChange' name \<Longrightarrow>
     snapshots obj0 (snd (impl_catch c error t))"
proof -
  assume a: "snapshots obj0 t" "name \<in> set (keys obj0)"
    "wrapped_onChange c = handleChange_raising onChange' name"
  obtain e t1 where p: "emitChange c rejected t = (e, t1)" by (cases "emitChange c rejected t") auto
  from snapshots_emitChange [OF a, of rejected] p have "snapshots obj0 t1" by simp
  with p show ?thesis by (simp add: impl_catch_def split: option.splits)
qed

lemma snapshots_impl_call:
  assumes "snapshots obj0 t" "name \<in> set (keys obj0)"
    "wrapped_onChange c = handleChange_raising onChange' name"
  shows "snapshots obj0 (snd (impl_call c args x t))"
proof -
  obtain e t1 where p: "emitChange c pending t = (e, t1)" by (cases "emitChange c pending t") auto
  from snapshots_emitChange [OF assms, of pending] p have 1: "snapshots obj0 t1" by simp
  have 2: "snapshots obj0 (snd (impl_catch c error t1))" for error
    using 1 assms(2,3) by (rule snapshots_impl_catch)
  show ?thesis
  proof (cases e)
    case (Some err)
    with p 1 show ?thesis by (simp add: impl_call_def)
  next
    case None
    show ?thesis
    proof (cases "wrapped_action c args x")
      case (Returns promise)
      with None p 1 show ?thesis by (simp add: impl_call_def)
    next
      case (Throws error)
      with None p 2 [of error] show ?thesis by (simp add: impl_call_def split_def)
    qed
  qed
qed

lemma snapshots_impl_settle:
  assumes "snapshots obj0 t" "name \<in> set (keys obj0)"
    "wrapped_onChange c = handleChange_raising onChange' name"
  shows "snapshots obj0 (snd (impl_settle c promise x t))"
proof -
  obtain e t1 where p: "emitChange c resolved t = (e, t1)" by (cases "emitChange c resolved t") auto
  from snapshots_emitChange [OF assms, of resolved] p have 1: "snapshots obj0 t1" by simp
  have 2: "snapshots obj0 (snd (impl_catch c error t1))" for error
    using 1 assms(2,3) by (rule snapshots_impl_catch)
  have 3: "snapshots obj0 (snd (impl_catch c error t))" for error
    using assms by (rule snapshots_impl_catch)
  show ?thesis
  proof (cases "promise x")
    case (Rejected error)
    with 3 [of error] show ?thesis by (simp add: impl_settle_def split_def)
  next
    case (Fulfilled response)
    show ?thesis
    proof (cases e)
      case None
      with Fulfilled p 1 show ?thesis by (simp add: impl_settle_def)
    next
      case (Some err)
      with Fulfilled p 2 [of err] show ?thesis by (simp add: impl_settle_def split_def)
    qed
  qed
qed

lemma kept_step: "kept obj0 onChange' s \<Longrightarrow> kept obj0 onChange' (step ev s)"
proof (cases ev)
  case (Invoke name args x)
  assume k: "kept obj0 onChange' s"
  show ?thesis
  proof (cases "getProp (wrappedActions s) name")
    case None
    with Invoke k show ?thesis by simp
  next
    case (Some c)
    with k have c: "snapshots obj0 (tracker s)" "name \<in> set (keys obj0)"
      "wrapped_onChange c = handleChange_raising onChange' name"
      by (auto simp: kept_def)
    from snapshots_impl_call [OF c, of args x] Invoke Some k show ?thesis
      by (auto simp: kept_def split: prod.splits sum.splits)
  qed
next
  case (Settle i x)
  assume k: "kept obj0 onChange' s"
  show ?thesis
  proof (cases "i < length (inflight s)")
    case False
    with Settle k show ?thesis by simp
  next
    case True
    obtain name promise where e: "inflight s ! i = (name, promise)"
      by (cases "inflight s ! i") auto
    show ?thesis
    proof (cases "getProp (wrappedActions s) name")
      case None
      with Settle k e show ?thesis by simp
    next
      case (Some c)
      with k have c: "snapshots obj0 (tracker s)" "name \<in> set (keys obj0)"
        "wrapped_onChange c = handleChange_raising onChange' name"
        by (auto simp: kept_def)
      from snapshots_impl_settle [OF c, of promise x] Settle Some k e True show ?thesis
        by (auto simp: kept_def)
    qed
  qed
qed

lemma kept_run: "kept obj0 onChange' s \<Longrightarrow> kept obj0 onChange' (run evs s)"
  unfolding run_def by (induction evs arbitrary: s) (simp_all add: kept_step)

lemma kept_init:
  "kept (fromEntries (map (\<lambda>key. (key, Num 0)) (keys actions))) onChange'
     (init actions onChange')"
proof -
  have "\<And>name c. getProp (wrapActions actions (handleChange_raising onChange')) name = Some c \<Longrightarrow>
          name \<in> set (keys actions)"
    using getProp_None [of "wrapActions actions (handleChange_raising onChange')"]
    by (force simp: wrapActions_keys)
  then show ?thesis
    by (auto simp: kept_def snapshots_def init_wrappedActions init_tracker keys_fromEntries
        image_image dest: wrapActions_lookup)
qed


text \<open>
  C8. Every phase transition calls the callback once, with the reference of an object
  allocated in that transition, which holds the counters after the transition and to
  which \<^verbatim>\<open>promiseState\<close> now refers; the transition changes no object that existed
  before. Along every run from \<^verbatim>\<open>trackActions(actions, onChange)\<close>, whatever the callback
  does with the snapshots, each object passed to the callback is still as it was when
  passed, has exactly the names of \<open>actions\<close> as keys, and has a reference different
  from those of all other objects passed and from \<^verbatim>\<open>initialState\<close>, whose object stays
  as it was as well.
\<close>

theorem snapshots_never_mutated:
  "(\<forall>(a, obj) \<in> set (delivered (tracker (run events (init actions onChange')))).
       heap (tracker (run events (init actions onChange'))) ! a = obj
       \<and> set (keys obj) = set (keys actions)
       \<and> a \<noteq> fst (snd (trackActions actions onChange')))
   \<and> distinct (map fst (delivered (tracker (run events (init actions onChange')))))
   \<and> heap (tracker (run events (init actions onChange'))) ! fst (snd (trackActions actions onChange')) =
       heap (snd (snd (trackActions actions onChange'))) ! fst (snd (trackActions actions onChange'))
   \<and> delivered (handleChange name st t) =
       delivered t @ [(promiseState (handleChange name st t),
                       heap (handleChange name st t) ! promiseState (handleChange name st t))]
   \<and> promiseState (handleChange name st t) = length (heap t)
   \<and> (\<forall>a < length (heap t). heap (handleChange name st t) ! a = heap t ! a)"
proof -
  let ?obj0 = "fromEntries (map (\<lambda>key. (key, Num 0)) (keys actions))"
  let ?t = "tracker (run events (init actions onChange'))"
  have "kept ?obj0 onChange' (run events (init actions onChange'))"
    by (simp add: kept_run kept_init)
  then have s: "snapshots ?obj0 ?t" by (simp add: kept_def)
  have k: "set (keys ?obj0) = set (keys actions)"
    by (simp add: keys_fromEntries image_image)
  have i: "fst (snd (trackActions actions onChange')) = 0"
    "heap (snd (snd (trackActions actions onChange'))) ! 0 = ?obj0"
    by (simp_all add: trackActions_def Let_def)
  from s k have 1: "\<forall>(a, obj) \<in> set (delivered ?t).
      heap ?t ! a = obj \<and> set (keys obj) = set (keys actions) \<and> a \<noteq> 0"
    by (fastforce simp: snapshots_def)
  from s have 2: "distinct (map fst (delivered ?t))" "heap ?t ! 0 = ?obj0"
    by (simp_all add: snapshots_def)
  from 1 2 i show ?thesis
    by (simp add: delivered_handleChange promiseState_handleChange heap_handleChange_old)
qed

theorem snapshots_never_mutated_witness:
  "(2, [(''increment'', Num 0), (''decrement'', Num 0), (''reset'', Num 0)])
     \<in> set (delivered (tracker (run click (init counterActions (failsAt 0)))))
   \<and> heap (tracker (run click (init counterActions (failsAt 0)))) ! 2 =
       [(''increment'', Num 0), (''decrement'', Num 0), (''reset'', Num 0)]
   \<and> map fst (delivered (tracker (run click (init counterActions (failsAt 0))))) = [1, 2, 3]"
proof -
  let ?obj = "[(''increment'', Num 0), (''decrement'', Num 0), (''reset'', Num 0)]"
  let ?t = "tracker (run click (init counterActions (failsAt 0)))"
  have m: "(2, ?obj) \<in> set (delivered ?t)"
    by code_simp
  have d: "map fst (delivered ?t) = [1, 2, 3]"
    by code_simp
  have "\<forall>(a, obj) \<in> set (delivered ?t).
         heap ?t ! a = obj
         \<and> set (keys obj) = set (keys counterActions)
         \<and> a \<noteq> fst (snd (trackActions counterActions (failsAt 0)))"
    using snapshots_never_mutated [of click counterActions "failsAt 0"] by (rule conjunct1)
  from bspec [OF this m] have "heap ?t ! 2 = ?obj"
    by simp
  with m d show ?thesis by (intro conjI)
qed


section \<open>Selector binding\<close>





end
